theory Spec2Isabelle
  imports Complex_Main "HOL-Library.AList"
begin

section \<open>JavaScript values\<close>

text \<open>
  The adapter works on JSON data received from an MCP server (tool schemas, call results)
  and on whatever an agent passes as tool input.  A value is modelled as JSON.stringify
  sees it: \<open>null\<close>, booleans, numbers (only their being zero is ever observed), strings,
  arrays and objects.  An object is its list of entries in enumeration order; reading a key
  returns the first entry with that key.  \<open>JBackRef\<close> stands for a reference from inside an
  object back to one of the objects that contain it: fixArrayProperties stores such a
  reference in \<open>parent.object\<close>, and JSON.stringify throws on it.  A property that is
  \<open>undefined\<close> is an absent key.  A non-index property written onto an array object is
  not represented: JSON.stringify skips it and nothing in tools.ts reads it.
\<close>

datatype jsval =
    JNull
  | JBool bool
  | JNum rat
  | JStr string
  | JArr "jsval list"
  | JObj "(string \<times> jsval) list"
  | JBackRef

text \<open>\<open>!v\<close> in JavaScript.\<close>

fun falsy :: "jsval \<Rightarrow> bool" where
  "falsy JNull = True"
| "falsy (JBool b) = (\<not> b)"
| "falsy (JNum n) = (n = 0)"
| "falsy (JStr s) = (s = [])"
| "falsy (JArr xs) = False"
| "falsy (JObj fs) = False"
| "falsy JBackRef = False"

text \<open>\<open>typeof v === 'object'\<close>: true of \<open>null\<close>, arrays and objects.\<close>

fun typeof_object :: "jsval \<Rightarrow> bool" where
  "typeof_object JNull = True"
| "typeof_object (JArr xs) = True"
| "typeof_object (JObj fs) = True"
| "typeof_object JBackRef = True"
| "typeof_object (JBool b) = False"
| "typeof_object (JNum n) = False"
| "typeof_object (JStr s) = False"

text \<open>\<open>obj.key\<close>: \<open>None\<close> is \<open>undefined\<close>.  None of the keys read below exists on an array.\<close>

fun get :: "jsval \<Rightarrow> string \<Rightarrow> jsval option" where
  "get (JObj fs) k = map_of fs k"
| "get JNull k = None"
| "get (JBool b) k = None"
| "get (JNum n) k = None"
| "get (JStr s) k = None"
| "get (JArr xs) k = None"
| "get JBackRef k = None"

text \<open>\<open>!obj.key\<close>: the key is absent or its value is falsy.\<close>

definition missing :: "jsval \<Rightarrow> string \<Rightarrow> bool" where
  "missing obj k = (case get obj k of None \<Rightarrow> True | Some v \<Rightarrow> falsy v)"

text \<open>
  \<open>obj.key = x\<close>: an existing key keeps its place, a new key goes to the end.
\<close>

fun put :: "string \<Rightarrow> jsval \<Rightarrow> jsval \<Rightarrow> jsval" where
  "put k x (JObj fs) =
     JObj (if k \<in> set (map fst fs)
           then map (\<lambda>(k', v). if k' = k then (k', x) else (k', v)) fs
           else fs @ [(k, x)])"
| "put k x JNull = JNull"
| "put k x (JBool b) = JBool b"
| "put k x (JNum n) = JNum n"
| "put k x (JStr s) = JStr s"
| "put k x (JArr xs) = JArr xs"
| "put k x JBackRef = JBackRef"

text \<open>Decimal rendering of an array index or a number of milliseconds in a template string.\<close>

definition digit :: "nat \<Rightarrow> char" where
  "digit d = ''0123456789'' ! d"

function dec :: "nat \<Rightarrow> string" where
  "dec n = (if n < 10 then [digit n] else dec (n div 10) @ [digit (n mod 10)])"
  by pat_completeness auto
termination
  by (relation "measure id") auto

declare dec.simps [simp del]

section \<open>Schema normalisation (src/tools.ts)\<close>

subsection \<open>The deep copy\<close>

text \<open>
  \<open>JSON.parse(JSON.stringify(schema))\<close>: JSON.stringify throws a TypeError on a circular
  structure; on JSON data the round trip returns an equal value.
\<close>

fun has_backref :: "jsval \<Rightarrow> bool" where
  "has_backref JBackRef = True"
| "has_backref (JArr xs) = list_ex has_backref xs"
| "has_backref (JObj fs) = list_ex (\<lambda>(k, v). has_backref v) fs"
| "has_backref JNull = False"
| "has_backref (JBool b) = False"
| "has_backref (JNum n) = False"
| "has_backref (JStr s) = False"

definition JSON_copy :: "jsval \<Rightarrow> jsval option" where
  "JSON_copy v = (if has_backref v then None else Some v)"

subsection \<open>fixArrayProperties\<close>

text \<open>
  The item schemas written at lines 181-195 of tools.ts.
\<close>

definition actions_items :: jsval where
  "actions_items =
     JObj [(''type'', JStr ''object''),
           (''properties'',
              JObj [(''type'', JObj [(''type'', JStr ''string'')]),
                    (''selector'', JObj [(''type'', JStr ''string'')])])]"

definition string_items :: jsval where
  "string_items = JObj [(''type'', JStr ''string'')]"

text \<open>
  \<open>obj.type === 'array' && !obj.items\<close>.
\<close>

definition needs_items :: "jsval \<Rightarrow> bool" where
  "needs_items obj = (get obj ''type'' = Some (JStr ''array'') \<and> missing obj ''items'')"

text \<open>
  \<open>obj.name === n || (obj.parent && obj.parent.property === n)\<close>.
\<close>

definition named :: "jsval \<Rightarrow> string \<Rightarrow> bool" where
  "named obj n =
     (get obj ''name'' = Some (JStr n) \<or>
      (case get obj ''parent'' of
         None \<Rightarrow> False
       | Some p \<Rightarrow> (if falsy p then False else get p ''property'' = Some (JStr n))))"

text \<open>Lines 172-198: the repair of one schema object.\<close>

definition add_items :: "jsval \<Rightarrow> jsval" where
  "add_items obj =
     (if needs_items obj then
        (if named obj ''actions'' then put ''items'' actions_items obj
         else if named obj ''formats'' then put ''items'' string_items obj
         else put ''items'' string_items obj)
      else obj)"

text \<open>
  Before each recursive call the caller writes \<open>parent = {object: obj, property: p}\<close> onto
  the sub-schema, and for a property also \<open>name = key\<close>.  The model passes what the caller
  writes as the first argument of the call, and the call starts by writing it.
\<close>

datatype annotation = Root | Sub string "string option"

definition parent_of :: "string \<Rightarrow> jsval" where
  "parent_of p = JObj [(''object'', JBackRef), (''property'', JStr p)]"

fun annotate :: "annotation \<Rightarrow> jsval \<Rightarrow> jsval" where
  "annotate Root v = v"
| "annotate (Sub p None) v = put ''parent'' (parent_of p) v"
| "annotate (Sub p (Some n)) v = put ''name'' (JStr n) (put ''parent'' (parent_of p) v)"

text \<open>
  The number of schema objects below a value that the repair would give items to; it
  bounds the recursion into item schemas that the repair itself creates.
\<close>

fun pending :: "jsval \<Rightarrow> nat" where
  "pending (JObj fs) =
     (if needs_items (JObj fs) then 1 else 0) + sum_list (map (\<lambda>(k, v). pending v) fs)"
| "pending (JArr xs) = sum_list (map pending xs)"
| "pending JNull = 0"
| "pending (JBool b) = 0"
| "pending (JNum n) = 0"
| "pending (JStr s) = 0"
| "pending JBackRef = 0"

definition weight :: "jsval \<Rightarrow> nat" where
  "weight v = size v + 100 * pending v"

text \<open>
  Facts about \<open>put\<close> and the measure, for the termination proof below.
\<close>
lemma get_put_other:
  assumes "k' \<noteq> k"
  shows "get (put k x v) k' = get v k'"
proof (cases v)
  case (JObj fs)
  have "map_of (map (\<lambda>(ka, v). if ka = k then (ka, x) else (ka, v)) fs) k' = map_of fs k'"
    using assms by (induction fs) auto
  then show ?thesis using JObj assms by (auto simp: map_add_def split: option.splits)
qed simp_all

lemma get_put_same: "get (put k x (JObj fs)) k = Some x"
proof -
  have "k \<in> set (map fst fs) \<Longrightarrow>
        map_of (map (\<lambda>(ka, v). if ka = k then (ka, x) else (ka, v)) fs) k = Some x"
    by (induction fs) auto
  moreover have "k \<notin> set (map fst fs) \<Longrightarrow> map_of (fs @ [(k, x)]) k = Some x"
    by (induction fs) auto
  ultimately show ?thesis by simp
qed

lemma entries_put:
  assumes "put k x v = JObj fs'" and "(k', c) \<in> set fs'"
  shows "(k' = k \<and> c = x) \<or> (k' \<noteq> k \<and> (\<exists>fs. v = JObj fs \<and> (k', c) \<in> set fs))"
proof (cases v)
  case (JObj fs)
  then show ?thesis using assms by (force split: if_splits)
qed (use assms in simp_all)

lemma put_is_obj: "put k x v = JObj fs' \<Longrightarrow> \<exists>fs. v = JObj fs"
  by (cases v) simp_all

lemma needs_items_put [simp]:
  "k \<noteq> ''type'' \<Longrightarrow> k \<noteq> ''items'' \<Longrightarrow> needs_items (put k x v) = needs_items v"
  by (simp add: needs_items_def missing_def get_put_other)

lemma needs_items_annotate [simp]: "needs_items (annotate a v) = needs_items v"
  by (cases "(a, v)" rule: annotate.cases) simp_all

lemma size_field: "(k, c) \<in> set fs \<Longrightarrow> size c < size (JObj fs)"
  by (induction fs) auto

lemma size_elem: "x \<in> set xs \<Longrightarrow> size x < size (JArr xs)"
  by (induction xs) auto

lemma pending_sum: "(k, c) \<in> set fs \<Longrightarrow> pending c \<le> (\<Sum>(k, y)\<leftarrow>fs. pending y)"
  by (induction fs) auto

lemma pending_field: "(k, c) \<in> set fs \<Longrightarrow> pending c \<le> pending (JObj fs)"
  using pending_sum [of k c fs] by simp

lemma pending_elem: "x \<in> set xs \<Longrightarrow> pending x \<le> pending (JArr xs)"
  by (induction xs) auto

lemma weight_field: "(k, c) \<in> set fs \<Longrightarrow> weight c < weight (JObj fs)"
  using size_field [of k c fs] pending_field [of k c fs] by (simp add: weight_def)

lemma weight_elem: "x \<in> set xs \<Longrightarrow> weight x < weight (JArr xs)"
  using size_elem [of x xs] pending_elem [of x xs] by (simp add: weight_def)

lemma weight_enum: "(i, x) \<in> set (enumerate n xs) \<Longrightarrow> weight x < weight (JArr xs)"
  by (auto simp: in_set_enumerate_eq intro: weight_elem)

lemma size_new_items: "size actions_items < 100" "size string_items < 100"
  by (simp_all add: actions_items_def string_items_def)

lemma pending_new_items [simp]: "pending actions_items = 0" "pending string_items = 0"
  by (simp_all add: actions_items_def string_items_def needs_items_def)

lemma pending_needs: "needs_items v \<Longrightarrow> 1 \<le> pending v"
  by (cases v) (simp_all add: needs_items_def)

lemma weight_new_items:
  assumes "needs_items v"
  shows "weight actions_items < weight v" and "weight string_items < weight v"
  using pending_needs [OF assms] size_new_items by (simp_all add: weight_def)

lemma entries_annotate:
  assumes "annotate a v = JObj fs'" and "(k, c) \<in> set fs'"
    and "k \<noteq> ''parent''" and "k \<noteq> ''name''"
  shows "\<exists>fs. v = JObj fs \<and> (k, c) \<in> set fs"
proof (cases a)
  case Root
  then show ?thesis using assms by simp
next
  case (Sub p n)
  show ?thesis
  proof (cases n)
    case None
    then show ?thesis using Sub assms entries_put [of "''parent''" "parent_of p" v fs' k c]
      by auto
  next
    case (Some nm)
    from assms(1) Sub Some
    have eq: "put ''name'' (JStr nm) (put ''parent'' (parent_of p) v) = JObj fs'" by simp
    from entries_put [OF eq assms(2)] assms(4)
    obtain fs1 where 1: "put ''parent'' (parent_of p) v = JObj fs1" and 2: "(k, c) \<in> set fs1"
      by auto
    from entries_put [OF 1 2] assms(3) show ?thesis by auto
  qed
qed

lemma weight_child:
  assumes "add_items (annotate a v) = JObj fs" and "(k, c) \<in> set fs"
    and "k \<noteq> ''parent''" and "k \<noteq> ''name''"
  shows "weight c < weight v"
proof (cases "needs_items v")
  case False
  then have "annotate a v = JObj fs" using assms(1) by (simp add: add_items_def)
  from entries_annotate [OF this assms(2-4)] show ?thesis by (auto intro: weight_field)
next
  case True
  then obtain d where d: "d = actions_items \<or> d = string_items"
    and eq: "put ''items'' d (annotate a v) = JObj fs"
    using assms(1) by (auto simp: add_items_def split: if_splits)
  from entries_put [OF eq assms(2)] show ?thesis
  proof
    assume "k = ''items'' \<and> c = d"
    then show ?thesis using d True weight_new_items by auto
  next
    assume "k \<noteq> ''items'' \<and> (\<exists>fs. annotate a v = JObj fs \<and> (k, c) \<in> set fs)"
    then obtain fs1 where "annotate a v = JObj fs1" "(k, c) \<in> set fs1" by auto
    from entries_annotate [OF this assms(3,4)] show ?thesis by (auto intro: weight_field)
  qed
qed

text \<open>
  fixArrayProperties (lines 162-280).  The copy that it works on is a tree, so the four
  traversal blocks (properties, items, patternProperties, oneOf/anyOf/allOf) write into
  four different fields of \<open>obj\<close> and none reads what another wrote: the model
  rewrites every field of \<open>obj\<close> according to its key.  \<open>Object.entries\<close> of an
  array lists its elements under their indices.  A value that is falsy or not an object
  is left as it is: each block guards its call so, or the assignment to
  \<open>parent\<close> throws inside the block's \<open>try\<close>.
\<close>

function fixArrayProperties :: "annotation \<Rightarrow> jsval \<Rightarrow> jsval" where
  "fixArrayProperties a v =
     (if falsy v \<or> \<not> typeof_object v then v
      else case add_items (annotate a v) of
        JObj fs \<Rightarrow>
          JObj (map (\<lambda>(k, c). (k,
            if k = ''properties'' then
              (case c of
                 JObj ps \<Rightarrow> JObj (map (\<lambda>(key, pv). (key, fixArrayProperties (Sub key (Some key)) pv)) ps)
               | JArr xs \<Rightarrow> JArr (map (\<lambda>(i, pv). fixArrayProperties (Sub (dec i) (Some (dec i))) pv) (enumerate 0 xs))
               | _ \<Rightarrow> c)
            else if k = ''items'' then fixArrayProperties (Sub ''items'' None) c
            else if k = ''patternProperties'' then
              (case c of
                 JObj ps \<Rightarrow> JObj (map (\<lambda>(pattern, p). (pattern, fixArrayProperties (Sub (''patternProperties['' @ pattern @ '']'') None) p)) ps)
               | JArr xs \<Rightarrow> JArr (map (\<lambda>(i, p). fixArrayProperties (Sub (''patternProperties['' @ dec i @ '']'') None) p) (enumerate 0 xs))
               | _ \<Rightarrow> c)
            else if k \<in> set [''oneOf'', ''anyOf'', ''allOf''] then
              (case c of
                 JArr xs \<Rightarrow> JArr (map (\<lambda>(i, sub). fixArrayProperties (Sub (k @ ''['' @ dec i @ '']'') None) sub) (enumerate 0 xs))
               | _ \<Rightarrow> c)
            else c)) fs)
      | other \<Rightarrow> other)"
  by pat_completeness auto
termination
proof (relation "measure (\<lambda>(a, v). weight v)", goal_cases)
  case 1
  show ?case by simp
next
  case (2 a v fs x k c xs y i pv)
  from 2(2,3,4,5) have "weight c < weight v"
    by (intro weight_child [of a v fs k c]) simp_all
  moreover have "weight pv < weight c" using 2(6,7,8) weight_enum [of i pv 0 xs] by simp
  ultimately show ?case by simp
next
  case (3 a v fs x k c ps y key pv)
  from 3(2,3,4,5) have "weight c < weight v"
    by (intro weight_child [of a v fs k c]) simp_all
  moreover have "weight pv < weight c" using 3(6,7,8) weight_field [of key pv ps] by simp
  ultimately show ?case by simp
next
  case (4 a v fs x k c)
  from 4(2,3,4,6) have "weight c < weight v"
    by (intro weight_child [of a v fs k c]) simp_all
  then show ?case by simp
next
  case (5 a v fs x k c xs y i pv)
  from 5(2,3,4,7) have "weight c < weight v"
    by (intro weight_child [of a v fs k c]) simp_all
  moreover have "weight pv < weight c" using 5(8,9,10) weight_enum [of i pv 0 xs] by simp
  ultimately show ?case by simp
next
  case (6 a v fs x k c ps y key pv)
  from 6(2,3,4,7) have "weight c < weight v"
    by (intro weight_child [of a v fs k c]) simp_all
  moreover have "weight pv < weight c" using 6(8,9,10) weight_field [of key pv ps] by simp
  ultimately show ?case by simp
next
  case (7 a v fs x k c xs y i pv)
  from 7(8) have "k \<noteq> ''parent''" "k \<noteq> ''name''" by auto
  with 7(2,3,4) have "weight c < weight v"
    by (intro weight_child [of a v fs k c]) simp_all
  moreover have "weight pv < weight c" using 7(9,10,11) weight_enum [of i pv 0 xs] by simp
  ultimately show ?case by simp
qed

declare fixArrayProperties.simps [simp del]

subsection \<open>ensureValidToolSchema\<close>

text \<open>
  Lines 94-154.  The \<open>catch\<close> of line 147 is reached when JSON.stringify throws; the
  inner \<open>try\<close> of line 129 never catches anything here, since every failure inside
  fixArrayProperties is caught where it occurs.
\<close>

definition ensureValidToolSchema :: "jsval \<Rightarrow> jsval" where
  "ensureValidToolSchema schema =
     (if falsy schema then schema
      else case JSON_copy schema of
        None \<Rightarrow> schema
      | Some validatedSchema \<Rightarrow>
          if \<not> typeof_object validatedSchema then schema
          else if get validatedSchema ''type'' = Some (JStr ''object'') then
            (let v1 = (if missing validatedSchema ''required''
                       then put ''required'' (JArr []) validatedSchema else validatedSchema);
                 v2 = (if missing v1 ''properties'' then put ''properties'' (JObj []) v1 else v1)
             in fixArrayProperties Root v2)
          else if get validatedSchema ''type'' = Some (JStr ''array'') \<and> missing validatedSchema ''items''
          then put ''items'' string_items validatedSchema
          else validatedSchema)"

subsection \<open>Sub-schemas and what the repair promises\<close>

text \<open>
  The places fixArrayProperties recurses into, as steps from a schema object to a
  sub-schema: a property, the item schema, a patternProperties branch, and the i-th member of
  oneOf, anyOf or allOf.  \<open>descend\<close> follows a list of steps through schema objects, and
  \<open>written s\<close> is the annotation the caller writes before the call for step \<open>s\<close>.
\<close>

datatype step = Prop string | Items | Pattern string | Member string nat

fun child :: "step \<Rightarrow> jsval \<Rightarrow> jsval option" where
  "child (Prop key) obj =
     (case get obj ''properties'' of Some (JObj ps) \<Rightarrow> map_of ps key | _ \<Rightarrow> None)"
| "child Items obj = get obj ''items''"
| "child (Pattern pat) obj =
     (case get obj ''patternProperties'' of Some (JObj ps) \<Rightarrow> map_of ps pat | _ \<Rightarrow> None)"
| "child (Member c i) obj =
     (if c \<in> set [''oneOf'', ''anyOf'', ''allOf''] then
        (case get obj c of
           Some (JArr xs) \<Rightarrow> (if i < length xs then Some (xs ! i) else None)
         | _ \<Rightarrow> None)
      else None)"

fun descend :: "step list \<Rightarrow> jsval \<Rightarrow> jsval option" where
  "descend [] v = Some v"
| "descend (s # p) v =
     (case child s v of Some (JObj fs) \<Rightarrow> descend p (JObj fs) | _ \<Rightarrow> None)"

fun written :: "step \<Rightarrow> annotation" where
  "written (Prop key) = Sub key (Some key)"
| "written Items = Sub ''items'' None"
| "written (Pattern pat) = Sub (''patternProperties['' @ pat @ '']'') None"
| "written (Member c i) = Sub (c @ ''['' @ dec i @ '']'') None"

text \<open>What the loop body of fixArrayProperties does with the field \<open>k\<close> of \<open>obj\<close>.\<close>

definition visit_field :: "string \<Rightarrow> jsval \<Rightarrow> jsval" where
  "visit_field k c =
     (if k = ''properties'' then
        (case c of
           JObj ps \<Rightarrow> JObj (map (\<lambda>(key, pv). (key, fixArrayProperties (Sub key (Some key)) pv)) ps)
         | JArr xs \<Rightarrow> JArr (map (\<lambda>(i, pv). fixArrayProperties (Sub (dec i) (Some (dec i))) pv) (enumerate 0 xs))
         | _ \<Rightarrow> c)
      else if k = ''items'' then fixArrayProperties (Sub ''items'' None) c
      else if k = ''patternProperties'' then
        (case c of
           JObj ps \<Rightarrow> JObj (map (\<lambda>(pattern, p). (pattern, fixArrayProperties (Sub (''patternProperties['' @ pattern @ '']'') None) p)) ps)
         | JArr xs \<Rightarrow> JArr (map (\<lambda>(i, p). fixArrayProperties (Sub (''patternProperties['' @ dec i @ '']'') None) p) (enumerate 0 xs))
         | _ \<Rightarrow> c)
      else if k \<in> set [''oneOf'', ''anyOf'', ''allOf''] then
        (case c of
           JArr xs \<Rightarrow> JArr (map (\<lambda>(i, sub). fixArrayProperties (Sub (k @ ''['' @ dec i @ '']'') None) sub) (enumerate 0 xs))
         | _ \<Rightarrow> c)
      else c)"

text \<open>
  The item schemas as the claims describe them, and the name that selects one: the key of
  a property; for any other sub-schema the \<open>name\<close> it carries itself, which the caller
  does not overwrite.
\<close>

definition string_item_schema :: "jsval \<Rightarrow> bool" where
  "string_item_schema items = (get items ''type'' = Some (JStr ''string''))"

definition action_item_schema :: "jsval \<Rightarrow> bool" where
  "action_item_schema items =
     (get items ''type'' = Some (JStr ''object'') \<and>
      (case child (Prop ''type'') items of
         Some t \<Rightarrow> get t ''type'' = Some (JStr ''string'') | None \<Rightarrow> False) \<and>
      (case child (Prop ''selector'') items of
         Some t \<Rightarrow> get t ''type'' = Some (JStr ''string'') | None \<Rightarrow> False))"

fun field_named :: "step \<Rightarrow> jsval \<Rightarrow> string \<Rightarrow> bool" where
  "field_named (Prop key) field n = (key = n)"
| "field_named Items field n = (get field ''name'' = Some (JStr n))"
| "field_named (Pattern pat) field n = (get field ''name'' = Some (JStr n))"
| "field_named (Member c i) field n = (get field ''name'' = Some (JStr n))"

definition repaired :: "step \<Rightarrow> jsval \<Rightarrow> jsval \<Rightarrow> bool" where
  "repaired s field field' =
     (case get field' ''items'' of
        None \<Rightarrow> False
      | Some items \<Rightarrow>
          \<not> falsy items \<and>
          (if field_named s field ''actions'' then action_item_schema items
           else string_item_schema items))"

declare put.simps(1) [simp del]

subsection \<open>Facts about fixArrayProperties\<close>

lemma map_of_map_entries:
  "map_of (map (\<lambda>(k, c). (k, f k c)) fs) k = map_option (f k) (map_of fs k)"
  by (induction fs) auto

lemma annotate_obj: "\<exists>gs. annotate a (JObj fs) = JObj gs"
  by (cases a; cases "case a of Sub p n \<Rightarrow> n | _ \<Rightarrow> None"; simp add: put.simps)

lemma add_items_obj: "\<exists>gs. add_items (JObj fs) = JObj gs"
  by (simp add: add_items_def put.simps)

lemma get_annotate:
  "k \<noteq> ''parent'' \<Longrightarrow> k \<noteq> ''name'' \<Longrightarrow> get (annotate a v) k = get v k"
  by (cases "(a, v)" rule: annotate.cases) (simp_all add: get_put_other)

lemma get_add_items:
  "k \<noteq> ''items'' \<Longrightarrow> get (add_items v) k = get v k"
  by (simp add: add_items_def get_put_other)

lemma fix_obj:
  assumes "add_items (annotate a (JObj fs)) = JObj gs"
  shows "fixArrayProperties a (JObj fs) = JObj (map (\<lambda>(k, c). (k, visit_field k c)) gs)"
  unfolding visit_field_def by (subst fixArrayProperties.simps) (simp add: assms)

lemma fix_not_obj:
  assumes "\<And>fs. v \<noteq> JObj fs"
  shows "fixArrayProperties a v = v"
proof (cases v)
  case (JObj fs)
  then show ?thesis using assms by blast
next
  case (JArr xs)
  have "annotate a (JArr xs) = JArr xs"
    by (cases "(a, JArr xs)" rule: annotate.cases) simp_all
  then show ?thesis using JArr
    by (subst fixArrayProperties.simps) (simp add: add_items_def needs_items_def)
next
  case JBackRef
  have "annotate a JBackRef = JBackRef"
    by (cases "(a, JBackRef)" rule: annotate.cases) simp_all
  then show ?thesis using JBackRef
    by (subst fixArrayProperties.simps) (simp add: add_items_def needs_items_def)
qed (simp_all add: fixArrayProperties.simps)

lemma fix_is_obj: "\<exists>gs. fixArrayProperties a (JObj fs) = JObj gs"
proof -
  obtain hs where "annotate a (JObj fs) = JObj hs" using annotate_obj by blast
  then obtain gs where "add_items (annotate a (JObj fs)) = JObj gs"
    using add_items_obj [of hs] by auto
  from fix_obj [OF this] show ?thesis by blast
qed

lemma get_fix:
  "get (fixArrayProperties a (JObj fs)) k =
     map_option (visit_field k) (get (add_items (annotate a (JObj fs))) k)"
proof -
  obtain hs where "annotate a (JObj fs) = JObj hs" using annotate_obj by blast
  then obtain gs where gs: "add_items (annotate a (JObj fs)) = JObj gs"
    using add_items_obj [of hs] by auto
  show ?thesis by (simp add: fix_obj [OF gs] gs map_of_map_entries)
qed

lemma get_fix_plain:
  assumes "k \<noteq> ''parent''" "k \<noteq> ''name''" "k \<noteq> ''items''"
  shows "get (fixArrayProperties a (JObj fs)) k = map_option (visit_field k) (get (JObj fs) k)"
  using assms by (simp add: get_fix get_add_items get_annotate)

lemma child_obj: "child s v = Some c \<Longrightarrow> \<exists>fs. v = JObj fs"
  by (cases v; cases s) (simp_all split: if_splits)

lemma nth_visit:
  "i < length xs \<Longrightarrow> map (\<lambda>(i, x). f i x) (enumerate 0 xs) ! i = f i (xs ! i)"
  by (simp add: nth_enumerate_eq)

lemma child_fix:
  assumes "child s v = Some (JObj cs)"
  shows "child s (fixArrayProperties a v) = Some (fixArrayProperties (written s) (JObj cs))"
proof -
  obtain fs where v: "v = JObj fs" using child_obj [OF assms] by blast
  show ?thesis
  proof (cases s)
    case (Prop key)
    then obtain ps where "get (JObj fs) ''properties'' = Some (JObj ps)" "map_of ps key = Some (JObj cs)"
      using assms v by (auto split: option.splits jsval.splits)
    then show ?thesis using Prop v
      by (simp add: get_fix_plain visit_field_def map_of_map_entries)
  next
    case Items
    then have it: "get (JObj fs) ''items'' = Some (JObj cs)" using assms v by simp
    then have "\<not> needs_items (JObj fs)"
      by (simp add: needs_items_def missing_def)
    then have "\<not> needs_items (annotate a (JObj fs))"
      by simp
    then have "get (add_items (annotate a (JObj fs))) ''items'' = Some (JObj cs)"
      using it by (simp add: add_items_def get_annotate)
    then show ?thesis using Items v by (simp add: get_fix visit_field_def)
  next
    case (Pattern pat)
    then obtain ps where "get (JObj fs) ''patternProperties'' = Some (JObj ps)" "map_of ps pat = Some (JObj cs)"
      using assms v by (auto split: option.splits jsval.splits)
    then show ?thesis using Pattern v
      by (simp add: get_fix_plain visit_field_def map_of_map_entries)
  next
    case (Member c i)
    then have c: "c \<in> set [''oneOf'', ''anyOf'', ''allOf'']"
      using assms by (auto split: if_splits)
    then obtain xs where xs: "get (JObj fs) c = Some (JArr xs)" "i < length xs" "xs ! i = JObj cs"
      using assms v Member by (auto split: option.splits jsval.splits if_splits)
    from c have "c \<noteq> ''parent''" "c \<noteq> ''name''" "c \<noteq> ''items''" "c \<noteq> ''properties''" "c \<noteq> ''patternProperties''"
      by auto
    then have "get (fixArrayProperties a (JObj fs)) c =
        Some (JArr (map (\<lambda>(i, sub). fixArrayProperties (Sub (c @ ''['' @ dec i @ '']'') None) sub) (enumerate 0 xs)))"
      using c xs(1) by (simp add: get_fix_plain visit_field_def)
    then show ?thesis using Member v c xs(2,3) by (simp add: nth_enumerate_eq)
  qed
qed

lemma fixed_string_items:
  "fixArrayProperties (Sub ''items'' None) string_items =
     JObj [(''type'', JStr ''string''), (''parent'', parent_of ''items'')]"
  by code_simp

lemma fixed_actions_items:
  "fixArrayProperties (Sub ''items'' None) actions_items =
     JObj [(''type'', JStr ''object''),
           (''properties'',
              JObj [(''type'', JObj [(''type'', JStr ''string''), (''parent'', parent_of ''type''),
                                    (''name'', JStr ''type'')]),
                    (''selector'', JObj [(''type'', JStr ''string''), (''parent'', parent_of ''selector''),
                                        (''name'', JStr ''selector'')])]),
           (''parent'', parent_of ''items'')]"
  by code_simp

lemma items_after_fix:
  assumes "needs_items (JObj fs)"
  shows "get (fixArrayProperties a (JObj fs)) ''items'' =
     Some (fixArrayProperties (Sub ''items'' None)
        (if named (annotate a (JObj fs)) ''actions'' then actions_items else string_items))"
proof -
  obtain hs where hs: "annotate a (JObj fs) = JObj hs" using annotate_obj by blast
  have "needs_items (JObj hs)" using assms hs needs_items_annotate [of a "JObj fs"] by simp
  then have "get (add_items (JObj hs)) ''items'' =
     Some (if named (JObj hs) ''actions'' then actions_items else string_items)"
    by (simp add: add_items_def get_put_same)
  then show ?thesis by (simp add: get_fix hs visit_field_def)
qed

lemma put_obj: "\<exists>hs. put k x (JObj fs) = JObj hs"
  by (simp add: put.simps)

lemma parent_of_simps [simp]:
  "get (parent_of p) ''property'' = Some (JStr p)" "\<not> falsy (parent_of p)"
  by (simp_all add: parent_of_def)

lemma get_parent_annotate:
  "get (annotate (Sub p n) (JObj fs)) ''parent'' = Some (parent_of p)"
proof (cases n)
  case None
  then show ?thesis by (simp add: get_put_same)
next
  case (Some m)
  then show ?thesis by (simp add: get_put_other get_put_same)
qed

lemma get_name_annotate:
  "get (annotate (Sub p n) (JObj fs)) ''name'' =
     (case n of None \<Rightarrow> get (JObj fs) ''name'' | Some m \<Rightarrow> Some (JStr m))"
proof (cases n)
  case None
  then show ?thesis by (simp add: get_put_other)
next
  case (Some m)
  obtain hs where "put ''parent'' (parent_of p) (JObj fs) = JObj hs" using put_obj by blast
  then show ?thesis using Some by (simp add: get_put_same)
qed

lemma named_annotate:
  "named (annotate (Sub p n) (JObj fs)) x =
     ((case n of None \<Rightarrow> get (JObj fs) ''name'' = Some (JStr x) | Some m \<Rightarrow> m = x) \<or> p = x)"
  unfolding named_def get_parent_annotate get_name_annotate
  by (cases n) simp_all

lemma named_written:
  assumes "child s v = Some (JObj fs)"
  shows "named (annotate (written s) (JObj fs)) ''actions'' = field_named s (JObj fs) ''actions''"
proof (cases s)
  case (Prop key)
  then show ?thesis by (simp add: named_annotate del: annotate.simps)
next
  case Items
  then show ?thesis by (simp add: named_annotate del: annotate.simps)
next
  case (Pattern pat)
  then show ?thesis by (simp add: named_annotate del: annotate.simps)
next
  case (Member c i)
  then have "c \<in> set [''oneOf'', ''anyOf'', ''allOf'']"
    using assms by (simp split: if_splits)
  then have "c @ ''['' @ dec i @ '']'' \<noteq> ''actions''" by auto
  then show ?thesis using Member by (simp add: named_annotate del: annotate.simps)
qed

lemma repaired_field:
  assumes "child s v = Some (JObj fs)" and "needs_items (JObj fs)"
  shows "repaired s (JObj fs) (fixArrayProperties (written s) (JObj fs))"
proof (cases "field_named s (JObj fs) ''actions''")
  case True
  then show ?thesis
    using items_after_fix [OF assms(2), of "written s"] named_written [OF assms(1)]
    by (simp add: repaired_def fixed_actions_items action_item_schema_def)
next
  case False
  then show ?thesis
    using items_after_fix [OF assms(2), of "written s"] named_written [OF assms(1)]
    by (simp add: repaired_def fixed_string_items string_item_schema_def)
qed

lemma descend_fix:
  assumes "descend p v = Some field" and "p \<noteq> []" and "needs_items field"
  shows "\<exists>field'. descend p (fixArrayProperties a v) = Some field' \<and> repaired (last p) field field'"
  using assms
proof (induction p arbitrary: a v)
  case Nil
  then show ?case by simp
next
  case (Cons s p)
  from Cons.prems(1) obtain cs where c: "child s v = Some (JObj cs)"
    and d: "descend p (JObj cs) = Some field"
    by (auto split: option.splits jsval.splits)
  obtain gs where gs: "fixArrayProperties (written s) (JObj cs) = JObj gs"
    using fix_is_obj by blast
  have step: "descend (s # p) (fixArrayProperties a v) = descend p (fixArrayProperties (written s) (JObj cs))"
    using child_fix [OF c, of a] gs by simp
  show ?case
  proof (cases "p = []")
    case True
    then have "field = JObj cs" using d by simp
    then show ?thesis using True step repaired_field [OF c] Cons.prems(3) by simp
  next
    case False
    from Cons.IH [OF d False Cons.prems(3), of "written s"] show ?thesis
      using step False by simp
  qed
qed

lemma has_backref_get: "get v k = Some c \<Longrightarrow> has_backref c \<Longrightarrow> has_backref v"
proof (cases v)
  case (JObj fs)
  assume "get v k = Some c" "has_backref c"
  then have "(k, c) \<in> set fs" "has_backref c" using JObj by (auto dest: map_of_SomeD)
  then show ?thesis using JObj by (auto simp: list_ex_iff)
qed simp_all

lemma has_backref_parent_of [simp]: "has_backref (parent_of p)"
  by (simp add: parent_of_def)

lemma visit_field_parent [simp]: "visit_field ''parent'' c = c"
  by (simp add: visit_field_def)

lemma fix_sub_obj_backref: "has_backref (fixArrayProperties (Sub p n) (JObj fs))"
proof -
  have "get (fixArrayProperties (Sub p n) (JObj fs)) ''parent'' = Some (parent_of p)"
    by (simp add: get_fix get_add_items get_parent_annotate del: annotate.simps)
  then show ?thesis using has_backref_get has_backref_parent_of by blast
qed

lemma fix_sub_cases:
  "fixArrayProperties (Sub p n) x = x \<or> has_backref (fixArrayProperties (Sub p n) x)"
proof (cases "\<exists>fs. x = JObj fs")
  case True
  then show ?thesis using fix_sub_obj_backref by auto
next
  case False
  then show ?thesis using fix_not_obj [of x] by simp
qed

lemma entries_cases:
  assumes "\<And>k v. f k v = v \<or> has_backref (f k v)"
  shows "map (\<lambda>(k, v). (k, f k v)) ps = ps \<or> list_ex (\<lambda>(k, v). has_backref v) (map (\<lambda>(k, v). (k, f k v)) ps)"
proof (induction ps)
  case Nil
  then show ?case by simp
next
  case (Cons kv ps)
  obtain k v where kv: "kv = (k, v)" by (cases kv)
  from assms [of k v] Cons show ?case using kv by auto
qed

lemma elems_cases:
  assumes "\<And>i v. f i v = v \<or> has_backref (f i v)"
  shows "map (\<lambda>(i, v). f i v) (enumerate n xs) = xs \<or> list_ex has_backref (map (\<lambda>(i, v). f i v) (enumerate n xs))"
proof (induction xs arbitrary: n)
  case Nil
  then show ?case by simp
next
  case (Cons x xs)
  from assms [of n x] Cons [of "Suc n"] show ?case by auto
qed

lemma visit_field_cases: "visit_field k c = c \<or> has_backref (visit_field k c)"
proof -
  consider "k = ''properties''" | "k = ''items''" | "k = ''patternProperties''"
    | "k \<in> set [''oneOf'', ''anyOf'', ''allOf'']"
    | "k \<noteq> ''properties''" "k \<noteq> ''items''" "k \<noteq> ''patternProperties''" "k \<notin> set [''oneOf'', ''anyOf'', ''allOf'']"
    by blast
  then show ?thesis
  proof cases
    case 1
    show ?thesis
    proof (cases c)
      case (JObj ps)
      from entries_cases [of "\<lambda>key. fixArrayProperties (Sub key (Some key))" ps] fix_sub_cases
      show ?thesis using 1 JObj by (simp add: visit_field_def)
    next
      case (JArr xs)
      from elems_cases [of "\<lambda>i. fixArrayProperties (Sub (dec i) (Some (dec i)))" 0 xs] fix_sub_cases
      show ?thesis using 1 JArr by (simp add: visit_field_def)
    qed (simp_all add: visit_field_def 1)
  next
    case 2
    then show ?thesis using fix_sub_cases by (simp add: visit_field_def)
  next
    case 3
    show ?thesis
    proof (cases c)
      case (JObj ps)
      from entries_cases [of "\<lambda>pattern. fixArrayProperties (Sub (''patternProperties['' @ pattern @ '']'') None)" ps] fix_sub_cases
      show ?thesis using 3 JObj by (simp add: visit_field_def)
    next
      case (JArr xs)
      from elems_cases [of "\<lambda>i. fixArrayProperties (Sub (''patternProperties['' @ dec i @ '']'') None)" 0 xs] fix_sub_cases
      show ?thesis using 3 JArr by (simp add: visit_field_def)
    qed (simp_all add: visit_field_def 3)
  next
    case 4
    then have k: "k \<noteq> ''properties''" "k \<noteq> ''items''" "k \<noteq> ''patternProperties''" by auto
    show ?thesis
    proof (cases c)
      case (JArr xs)
      from elems_cases [of "\<lambda>i. fixArrayProperties (Sub (k @ ''['' @ dec i @ '']'') None)" 0 xs] fix_sub_cases
      show ?thesis using 4 k JArr by (simp add: visit_field_def)
    qed (simp_all add: visit_field_def 4 k)
  next
    case 5
    then show ?thesis by (simp add: visit_field_def)
  qed
qed

lemma fix_root_cases:
  "fixArrayProperties Root v = v \<or> has_backref (fixArrayProperties Root v)"
proof (cases "\<exists>fs. v = JObj fs")
  case False
  then show ?thesis using fix_not_obj [of v] by simp
next
  case True
  then obtain fs where v: "v = JObj fs" by blast
  show ?thesis
  proof (cases "needs_items v")
    case True
    obtain d where d: "get (fixArrayProperties Root (JObj fs)) ''items'' = Some (fixArrayProperties (Sub ''items'' None) d)"
      and "d = actions_items \<or> d = string_items"
      using items_after_fix [of fs Root] True v by auto
    then have "has_backref (fixArrayProperties (Sub ''items'' None) d)"
      using fix_sub_obj_backref by (auto simp: actions_items_def string_items_def)
    then show ?thesis using d v has_backref_get by blast
  next
    case False
    then have "add_items (annotate Root (JObj fs)) = JObj fs" using v by (simp add: add_items_def)
    from fix_obj [OF this] entries_cases [of visit_field fs] visit_field_cases
    show ?thesis using v by auto
  qed
qed

lemma missing_put: "\<not> falsy x \<Longrightarrow> \<not> missing (put k x (JObj fs)) k"
  by (simp add: missing_def get_put_same)

lemma missing_put_other: "k' \<noteq> k \<Longrightarrow> missing (put k x v) k' = missing v k'"
  by (simp add: missing_def get_put_other)

lemma ensure_unchanged:
  "JSON_copy v = None \<Longrightarrow> ensureValidToolSchema v = v"
  by (simp add: ensureValidToolSchema_def)

lemma ensure_backref: "has_backref v \<Longrightarrow> ensureValidToolSchema v = v"
  by (simp add: ensureValidToolSchema_def JSON_copy_def)

subsection \<open>Claims about schema normalisation\<close>

text \<open>
  Claim C5.  Schema normalisation is idempotent: normalising the result of a normalisation
  returns that result again.  When the first pass has annotated a sub-schema, its result
  holds a reference back to an enclosing object, so in the second pass JSON.stringify
  throws and line 152 returns the argument; otherwise the first pass has left nothing
  for the second to change.
\<close>

theorem ensureValidToolSchema_idempotent:
  "ensureValidToolSchema (ensureValidToolSchema s) = ensureValidToolSchema s"
proof (cases "falsy s \<or> has_backref s \<or> \<not> typeof_object s")
  case True
  then have "ensureValidToolSchema s = s"
    by (auto simp: ensureValidToolSchema_def JSON_copy_def)
  then show ?thesis by simp
next
  case False
  then have s: "\<not> falsy s" "\<not> has_backref s" "typeof_object s" by auto
  show ?thesis
  proof (cases "get s ''type'' = Some (JStr ''object'')")
    case True
    then obtain fs where fs: "s = JObj fs" by (cases s) simp_all
    define v1 where "v1 = (if missing s ''required'' then put ''required'' (JArr []) s else s)"
    define v2 where "v2 = (if missing v1 ''properties'' then put ''properties'' (JObj []) v1 else v1)"
    have r: "ensureValidToolSchema s = fixArrayProperties Root v2"
      using s True by (simp add: ensureValidToolSchema_def JSON_copy_def v1_def v2_def Let_def)
    obtain fs1 where fs1: "v1 = JObj fs1" using fs put_obj [of "''required''" "JArr []" fs]
      by (cases "missing s ''required''") (auto simp: v1_def)
    obtain fs2 where fs2: "v2 = JObj fs2" using fs1 put_obj [of "''properties''" "JObj []" fs1]
      by (cases "missing v1 ''properties''") (auto simp: v2_def)
    have req1: "\<not> missing v1 ''required''" using fs by (simp add: v1_def missing_put)
    have req2: "\<not> missing v2 ''required''" using req1 by (simp add: v2_def missing_put_other)
    have prop2: "\<not> missing v2 ''properties''" using fs1 by (simp add: v2_def missing_put)
    have ty: "get v2 ''type'' = Some (JStr ''object'')" using True by (simp add: v2_def v1_def get_put_other)
    from fix_root_cases [of v2] show ?thesis
    proof
      assume same: "fixArrayProperties Root v2 = v2"
      have "ensureValidToolSchema v2 = fixArrayProperties Root v2"
      proof (cases "has_backref v2")
        case True
        then show ?thesis using same by (simp add: ensure_backref)
      next
        case False
        then show ?thesis using fs2 ty req2 prop2
          by (simp add: ensureValidToolSchema_def JSON_copy_def Let_def)
      qed
      then show ?thesis using r same by simp
    next
      assume "has_backref (fixArrayProperties Root v2)"
      then show ?thesis using r by (simp add: ensure_backref)
    qed
  next
    case False
    note notobj = this
    show ?thesis
    proof (cases "get s ''type'' = Some (JStr ''array'') \<and> missing s ''items''")
      case True
      then obtain fs where fs: "s = JObj fs" by (cases s) simp_all
      have r: "ensureValidToolSchema s = put ''items'' string_items s"
        using s True by (simp add: ensureValidToolSchema_def JSON_copy_def)
      obtain hs where hs: "put ''items'' string_items s = JObj hs" using fs put_obj by blast
      have "\<not> has_backref (put ''items'' string_items s)"
        using s(2) fs by (auto simp: put.simps string_items_def list_ex_iff split: if_splits)
      moreover have "get (put ''items'' string_items s) ''type'' = Some (JStr ''array'')"
        using True by (simp add: get_put_other)
      moreover have "\<not> missing (put ''items'' string_items s) ''items''"
        using fs by (simp add: missing_put string_items_def)
      ultimately have "ensureValidToolSchema (put ''items'' string_items s) = put ''items'' string_items s"
        using hs by (simp add: ensureValidToolSchema_def JSON_copy_def)
      then show ?thesis using r by simp
    next
      case False
      then have "ensureValidToolSchema s = s"
        using s notobj by (auto simp: ensureValidToolSchema_def JSON_copy_def)
      then show ?thesis by simp
    qed
  qed
qed

text \<open>
  Claim C5 at a schema with one array property: the second pass returns the result of
  the first, shown here in full.
\<close>

theorem ensureValidToolSchema_idempotent_witness:
  "ensureValidToolSchema
     (ensureValidToolSchema
        (JObj [(''type'', JStr ''object''),
               (''properties'', JObj [(''tags'', JObj [(''type'', JStr ''array'')])])]))
   = JObj [(''type'', JStr ''object''),
           (''properties'',
              JObj [(''tags'',
                 JObj [(''type'', JStr ''array''),
                       (''parent'', JObj [(''object'', JBackRef), (''property'', JStr ''tags'')]),
                       (''name'', JStr ''tags''),
                       (''items'',
                          JObj [(''type'', JStr ''string''),
                                (''parent'', JObj [(''object'', JBackRef), (''property'', JStr ''items'')])])])]),
           (''required'', JArr [])]"
proof -
  have "ensureValidToolSchema
        (JObj [(''type'', JStr ''object''),
               (''properties'', JObj [(''tags'', JObj [(''type'', JStr ''array'')])])])
   = JObj [(''type'', JStr ''object''),
           (''properties'',
              JObj [(''tags'',
                 JObj [(''type'', JStr ''array''),
                       (''parent'', JObj [(''object'', JBackRef), (''property'', JStr ''tags'')]),
                       (''name'', JStr ''tags''),
                       (''items'',
                          JObj [(''type'', JStr ''string''),
                                (''parent'', JObj [(''object'', JBackRef), (''property'', JStr ''items'')])])])]),
           (''required'', JArr [])]"
    by code_simp
  then show ?thesis
    using ensureValidToolSchema_idempotent
      [of "JObj [(''type'', JStr ''object''),
               (''properties'', JObj [(''tags'', JObj [(''type'', JStr ''array'')])])]"]
    by simp
qed

lemma child_defaults:
  assumes "child s v = Some c"
  shows "child s (if missing v ''required'' then put ''required'' x v else v) = Some c"
    and "child s (if missing v ''properties'' then put ''properties'' y v else v) = Some c"
proof -
  show "child s (if missing v ''required'' then put ''required'' x v else v) = Some c"
    using assms by (cases s) (auto simp: get_put_other split: if_splits)
  have "\<not> missing v ''properties''" if "s = Prop key" for key
    using assms that by (auto simp: missing_def split: option.splits jsval.splits)
  then show "child s (if missing v ''properties'' then put ''properties'' y v else v) = Some c"
    using assms by (cases s) (auto simp: get_put_other split: if_splits)
qed

text \<open>
  Claim C1, as amended.  For every JSON schema whose root has type \<open>object\<close>, every
  sub-schema of type \<open>array\<close> without \<open>items\<close> that is reached through properties,
  item schemas, patternProperties branches and oneOf/anyOf/allOf members has, after
  normalisation, truthy \<open>items\<close>: the object item schema with string \<open>type\<close> and
  \<open>selector\<close> when it is named \<open>actions\<close>, string items otherwise (a field named
  \<open>formats\<close> included).
\<close>

theorem array_fields_receive_items:
  assumes "\<not> has_backref schema"
    and "get schema ''type'' = Some (JStr ''object'')"
    and "descend p schema = Some field"
    and "needs_items field"
  shows "\<exists>field'. descend p (ensureValidToolSchema schema) = Some field' \<and>
           repaired (last p) field field'"
proof -
  obtain fs where fs: "schema = JObj fs" using assms(2) by (cases schema) simp_all
  define v1 where "v1 = (if missing schema ''required'' then put ''required'' (JArr []) schema else schema)"
  define v2 where "v2 = (if missing v1 ''properties'' then put ''properties'' (JObj []) v1 else v1)"
  have r: "ensureValidToolSchema schema = fixArrayProperties Root v2"
    using assms(1,2) fs by (simp add: ensureValidToolSchema_def JSON_copy_def v1_def v2_def Let_def)
  have "p \<noteq> []"
  proof
    assume "p = []"
    then have "field = schema" using assms(3) by simp
    then show False using assms(2,4) by (simp add: needs_items_def)
  qed
  then obtain s q where p: "p = s # q" by (cases p) auto
  then obtain cs where c: "child s schema = Some (JObj cs)" and d: "descend q (JObj cs) = Some field"
    using assms(3) by (auto split: option.splits jsval.splits)
  have "child s v1 = Some (JObj cs)" unfolding v1_def by (rule child_defaults(1) [OF c])
  then have "child s v2 = Some (JObj cs)" unfolding v2_def by (rule child_defaults(2))
  then have "descend p v2 = Some field" using p d by simp
  from descend_fix [OF this \<open>p \<noteq> []\<close> assms(4), of Root] show ?thesis using r by simp
qed

text \<open>Claim C1 as amended, at a schema with an \<open>actions\<close> property.\<close>

theorem array_fields_receive_items_witness:
  "\<not> has_backref
      (JObj [(''type'', JStr ''object''),
             (''properties'', JObj [(''actions'', JObj [(''type'', JStr ''array'')]),
                                   (''tags'', JObj [(''type'', JStr ''array'')])])]) \<and>
   descend [Prop ''actions'']
      (JObj [(''type'', JStr ''object''),
             (''properties'', JObj [(''actions'', JObj [(''type'', JStr ''array'')]),
                                   (''tags'', JObj [(''type'', JStr ''array'')])])])
     = Some (JObj [(''type'', JStr ''array'')]) \<and>
   needs_items (JObj [(''type'', JStr ''array'')]) \<and>
   (\<exists>field'. descend [Prop ''actions'']
        (ensureValidToolSchema
          (JObj [(''type'', JStr ''object''),
                 (''properties'', JObj [(''actions'', JObj [(''type'', JStr ''array'')]),
                                       (''tags'', JObj [(''type'', JStr ''array'')])])]))
        = Some field' \<and>
      repaired (Prop ''actions'') (JObj [(''type'', JStr ''array'')]) field')"
proof -
  let ?s = "JObj [(''type'', JStr ''object''),
             (''properties'', JObj [(''actions'', JObj [(''type'', JStr ''array'')]),
                                   (''tags'', JObj [(''type'', JStr ''array'')])])]"
  have h1: "\<not> has_backref ?s" by simp
  have h2: "get ?s ''type'' = Some (JStr ''object'')" by simp
  have h3: "descend [Prop ''actions''] ?s = Some (JObj [(''type'', JStr ''array'')])" by simp
  have h4: "needs_items (JObj [(''type'', JStr ''array'')])" by (simp add: needs_items_def missing_def)
  from array_fields_receive_items [OF h1 h2 h3 h4] h1 h3 h4 show ?thesis by simp
qed

text \<open>
  Claim C1 as stated fails on a schema whose root has no \<open>type\<close>: line 140 only logs a
  warning, fixArrayProperties is not called, and the array property keeps no \<open>items\<close>.
\<close>

theorem untyped_root_not_repaired:
  "descend [Prop ''tags'']
      (JObj [(''properties'', JObj [(''tags'', JObj [(''type'', JStr ''array'')])])])
     = Some (JObj [(''type'', JStr ''array'')]) \<and>
   needs_items (JObj [(''type'', JStr ''array'')]) \<and>
   descend [Prop ''tags'']
      (ensureValidToolSchema
         (JObj [(''properties'', JObj [(''tags'', JObj [(''type'', JStr ''array'')])])]))
     = Some (JObj [(''type'', JStr ''array'')]) \<and>
   get (JObj [(''type'', JStr ''array'')]) ''items'' = None"
  by (simp add: ensureValidToolSchema_def JSON_copy_def needs_items_def missing_def)

section \<open>Call results (src/tools.ts, lines 8-86 and 516-588)\<close>

text \<open>
  The interfaces of lines 8-18.  A content item has a \<open>type\<close>, an optional \<open>text\<close> and
  other fields; the content of a result is an array of items or, as \<open>unknown\<close> allows, some
  value that is not an array.
\<close>

record ContentItem =
  type' :: string
  text' :: "string option"
  rest :: "(string \<times> jsval) list"

datatype content = ContentArray "ContentItem list" | ContentOther jsval

record CallToolResult =
  isError :: "bool option"
  content :: content

text \<open>
  What a \<open>throw\<close> carries: a ToolException, another \<open>Error\<close> (a ZodError is one), both
  with their message, or a value that is not an \<open>Error\<close>, with its rendering by
  \<open>String\<close>.
\<close>

datatype exn = ToolException string | ZodError string | Error string | Thrown string

text \<open>
  What convertCallToolResult returns (its return type is \<open>unknown\<close>): a text, one content
  item, the content array, or the result object itself.
\<close>

datatype processed =
    Text string
  | Item ContentItem
  | ItemList "ContentItem list"
  | Whole CallToolResult

text \<open>
  convertCallToolResult, lines 46-86.  \<open>None\<close> is a \<open>null\<close> or \<open>undefined\<close>
  result.  In the error branch the text must be truthy (line 61); in the other branch it
  must only be defined (line 73).
\<close>

definition convertCallToolResult :: "CallToolResult option \<Rightarrow> exn + processed" where
  "convertCallToolResult result =
     (case result of
        None \<Rightarrow> Inr (Text '''')
      | Some r \<Rightarrow>
          if isError r = Some True then
            (case content r of
               ContentArray items \<Rightarrow>
                 (case find (\<lambda>item. type' item = ''text'') items of
                    Some textContent \<Rightarrow>
                      (case text' textContent of
                         Some t \<Rightarrow>
                           if t \<noteq> [] then Inl (ToolException t)
                           else Inl (ToolException ''Tool execution failed'')
                       | None \<Rightarrow> Inl (ToolException ''Tool execution failed''))
                  | None \<Rightarrow> Inl (ToolException ''Tool execution failed''))
             | ContentOther v \<Rightarrow> Inl (ToolException ''Tool execution failed''))
          else
            (case content r of
               ContentArray items \<Rightarrow>
                 (case find (\<lambda>item. type' item = ''text'') items of
                    Some textContent \<Rightarrow>
                      (case text' textContent of
                         Some t \<Rightarrow> Inr (Text t)
                       | None \<Rightarrow>
                           Inr (if length items = 1 then Item (hd items) else ItemList items))
                  | None \<Rightarrow> Inr (if length items = 1 then Item (hd items) else ItemList items))
             | ContentOther v \<Rightarrow> Inr (Whole r)))"

text \<open>
  What \<open>client.callTool\<close> gives back to \<open>_call\<close>: a response with optional
  \<open>isError\<close> and \<open>content\<close>, or \<open>null\<close>, or an exception.  \<open>_call\<close> resolves to a
  string or rejects with an exception.
\<close>

record ToolResponse =
  resp_isError :: "bool option"
  resp_content :: "content option"

datatype reply = Returned "ToolResponse option" | Threw exn

datatype outcome = Resolved string | Rejected exn

text \<open>
  \<open>String(processedResult)\<close> (line 553): a string is itself, an object is rendered as
  \<open>[object Object]\<close>, and an array as its rendered elements joined by commas.
\<close>

fun join :: "string \<Rightarrow> string list \<Rightarrow> string" where
  "join sep [] = []"
| "join sep [x] = x"
| "join sep (x # y # ys) = x @ sep @ join sep (y # ys)"

fun String :: "processed \<Rightarrow> string" where
  "String (Text s) = s"
| "String (Item i) = ''[object Object]''"
| "String (ItemList items) = join '','' (map (\<lambda>i. ''[object Object]'') items)"
| "String (Whole r) = ''[object Object]''"

text \<open>The \<open>catch\<close> of lines 557-580.\<close>

fun rethrow :: "string \<Rightarrow> exn \<Rightarrow> exn" where
  "rethrow toolName (ToolException m) = ToolException m"
| "rethrow toolName (ZodError m) = ToolException (''Error calling tool '' @ toolName @ '': '' @ m)"
| "rethrow toolName (Error m) = ToolException (''Error calling tool '' @ toolName @ '': '' @ m)"
| "rethrow toolName (Thrown s) = ToolException (''Unknown error calling tool '' @ toolName @ '': '' @ s)"

text \<open>\<open>result.content || []\<close> (line 547).\<close>

definition or_empty :: "content option \<Rightarrow> content" where
  "or_empty c =
     (case c of
        None \<Rightarrow> ContentArray []
      | Some (ContentArray items) \<Rightarrow> ContentArray items
      | Some (ContentOther v) \<Rightarrow> (if falsy v then ContentArray [] else ContentOther v))"

text \<open>
  \<open>_call\<close>, lines 516-588.  The first argument is the tool's name, the second what the
  client does with this call: \<open>None\<close> when there is no client (line 522).
\<close>

definition call :: "string \<Rightarrow> reply option \<Rightarrow> outcome" where
  "call toolName client =
     (case client of
        None \<Rightarrow>
          Rejected (ToolException (''Cannot execute tool '' @ toolName @ '': MCP client is not available''))
      | Some (Threw e) \<Rightarrow> Rejected (rethrow toolName e)
      | Some (Returned None) \<Rightarrow> Resolved ''''
      | Some (Returned (Some result)) \<Rightarrow>
          (case convertCallToolResult
                  (Some \<lparr>isError = Some (resp_isError result = Some True),
                         content = or_empty (resp_content result)\<rparr>) of
             Inl e \<Rightarrow> Rejected (rethrow toolName e)
           | Inr processedResult \<Rightarrow> Resolved (String processedResult)))"

subsection \<open>The adapter of unnamed/part_003\<close>









subsection \<open>Claims about call results\<close>








section \<open>Input coercion (src/tools.ts, lines 290-399)\<close>








subsection \<open>The rules as the specification lists them\<close>












subsection \<open>Claims about input coercion\<close>




section \<open>The connection registry (MultiServerMCPClient)\<close>

text \<open>
  The three connection types of the client, with their optional fields.  Headers,
  environment and server instance are kept as values.
\<close>

datatype Connection =
    StdioConnection string "jsval list" "jsval option" "string option" "string option"
  | SSEConnection string "jsval option" "bool option"
  | ProgrammaticConnection jsval

text \<open>
  The calls of \<open>logger.warn\<close> and \<open>logger.error\<close> of the constructor, of
  initializeConnections, of close and of loadMcpTools, with the server or the error they
  name.  The \<open>info\<close> and \<open>debug\<close> lines are left out, and so are the warning of line
  232 (the \<open>eventsource\<close> package cannot be imported; the connection goes on without
  it) and three calls that are not reached: line 294 (the constructor stores no other
  transport), line 308 (loadMcpTools catches all it can throw) and line 642 of tools.ts
  (convertMcpToolToLangchainTool catches all it can throw).
\<close>

datatype event =
    Invalid_SSE_url string
  | Invalid_programmatic_server string
  | Invalid_stdio_command string
  | Invalid_stdio_args string
  | No_connections
  | Connect_failed string string
  | Cleanup_failed nat
  | Tool_without_name
  | List_tools_failed string


datatype level = Warn | Err

text \<open>\<open>typeof v === 'object' && v !== null\<close> for a field that may be absent.\<close>

definition is_object :: "jsval option \<Rightarrow> bool" where
  "is_object v = (case v of Some x \<Rightarrow> typeof_object x \<and> x \<noteq> JNull | None \<Rightarrow> False)"

text \<open>
  The body of the constructor's loop for one configuration object: the connection it
  registers, or the warning it logs before \<open>continue\<close>.
\<close>

definition validate :: "string \<Rightarrow> jsval \<Rightarrow> (level \<times> event) + Connection" where
  "validate serverName config =
     (if get config ''transport'' = Some (JStr ''sse'') then
        (case get config ''url'' of
           Some (JStr url) \<Rightarrow>
             Inr (SSEConnection url
                    (if is_object (get config ''headers'') then get config ''headers'' else None)
                    (case get config ''useNodeEventSource'' of Some (JBool b) \<Rightarrow> Some b | _ \<Rightarrow> None))
         | _ \<Rightarrow> Inl (Warn, Invalid_SSE_url serverName))
      else if get config ''transport'' = Some (JStr ''programmatic'') then
        (case get config ''server'' of
           Some server \<Rightarrow>
             (if typeof_object server \<and> server \<noteq> JNull
              then Inr (ProgrammaticConnection server)
              else Inl (Warn, Invalid_programmatic_server serverName))
         | None \<Rightarrow> Inl (Warn, Invalid_programmatic_server serverName))
      else
        (case get config ''command'' of
           Some (JStr command) \<Rightarrow>
             (case get config ''args'' of
                Some (JArr args) \<Rightarrow>
                  Inr (StdioConnection command args
                         (if is_object (get config ''env'') then get config ''env'' else None)
                         (case get config ''encoding'' of Some (JStr e) \<Rightarrow> Some e | _ \<Rightarrow> None)
                         (case get config ''encodingErrorHandler'' of
                            Some (JStr h) \<Rightarrow>
                              (if h \<in> set [''strict'', ''ignore'', ''replace''] then Some h else None)
                          | _ \<Rightarrow> None))
              | _ \<Rightarrow> Inl (Warn, Invalid_stdio_args serverName))
         | _ \<Rightarrow> Inl (Warn, Invalid_stdio_command serverName)))"

text \<open>
  A tool as a server lists it, and the adapter built from it.  The adapter keeps the
  normalised JSON schema; its conversion to a Zod schema is done by a library.
  loadMcpTools (tools.ts, lines 600-655) returns the tools it loaded and, here, what it
  logged: it skips a tool without a name with a warning (line 625), and when
  \<open>client.listTools\<close> throws it logs the error (line 645) and returns no tools.  It never
  throws.  A listing is the list of tools that \<open>listTools\<close> returns (the empty list when
  the response has no \<open>tools\<close>), or the error it throws.
\<close>

record ToolInfo =
  name :: "string option"
  description :: "string option"
  inputSchema :: jsval

record Tool =
  tool_name :: string
  tool_description :: string
  tool_schema :: jsval

datatype listing = Listed "ToolInfo list" | List_failed string

definition convertMcpToolToLangchainTool :: "string \<Rightarrow> string \<Rightarrow> jsval \<Rightarrow> Tool" where
  "convertMcpToolToLangchainTool toolName toolDescription toolSchema =
     \<lparr>tool_name = toolName, tool_description = toolDescription,
      tool_schema = ensureValidToolSchema toolSchema\<rparr>"

fun loadTools :: "ToolInfo list \<Rightarrow> Tool list \<times> (level \<times> event) list" where
  "loadTools [] = ([], [])"
| "loadTools (toolInfo # others) =
     (case loadTools others of
        (tools, lg) \<Rightarrow>
          (case name toolInfo of
             None \<Rightarrow> (tools, (Warn, Tool_without_name) # lg)
           | Some n \<Rightarrow>
               if n = [] then (tools, (Warn, Tool_without_name) # lg)
               else (convertMcpToolToLangchainTool n
                       (case description toolInfo of None \<Rightarrow> [] | Some d \<Rightarrow> d)
                       (inputSchema toolInfo) # tools, lg)))"

definition loadMcpTools :: "listing \<Rightarrow> Tool list \<times> (level \<times> event) list" where
  "loadMcpTools l =
     (case l of
        Listed toolsInfo \<Rightarrow> loadTools toolsInfo
      | List_failed error \<Rightarrow> ([], [(Err, List_tools_failed error)]))"

text \<open>
  What happens when a connection is attempted: creating the transport or the handshake
  throws, with a message, or the client connects and its tools are listed.
\<close>

datatype attempt = Refused string | Accepted listing

text \<open>
  The state.  The first four fields are the fields of the class.  Clients are numbered in
  the order in which they are created (\<open>fresh\<close> is the next number), and the cleanup
  function of a connection is identified with the number of its client.  \<open>logged\<close> holds
  what was logged, \<open>opened\<close> the sessions that were established, and \<open>cleaned\<close> the
  cleanup functions that were invoked, in order.
\<close>

record registry =
  clients :: "string \<rightharpoonup> nat"
  serverNameToTools :: "string \<rightharpoonup> Tool list"
  connections :: "(string \<times> Connection) list option"
  cleanupFunctions :: "nat list"
  logged :: "(level \<times> event) list"
  opened :: "(string \<times> nat) list"
  cleaned :: "nat list"
  fresh :: nat

text \<open>
  The constructor: \<open>Object.entries(connections)\<close> in order, each accepted connection
  stored under its server name.  A value that is not an object is skipped without a
  warning (line 59).
\<close>

fun process :: "(string \<times> jsval) list \<Rightarrow> (string \<times> Connection) list \<times> (level \<times> event) list
    \<Rightarrow> (string \<times> Connection) list \<times> (level \<times> event) list" where
  "process [] acc = acc"
| "process ((serverName, config) # others) (processedConnections, lg) =
     (if typeof_object config \<and> config \<noteq> JNull then
        (case validate serverName config of
           Inl warning \<Rightarrow> process others (processedConnections, lg @ [warning])
         | Inr connection \<Rightarrow>
             process others (AList.update serverName connection processedConnections, lg))
      else process others (processedConnections, lg))"

definition new_client :: "(string \<times> jsval) list option \<Rightarrow> registry" where
  "new_client cfg =
     (case cfg of
        None \<Rightarrow>
          \<lparr>clients = Map.empty, serverNameToTools = Map.empty, connections = None,
           cleanupFunctions = [], logged = [], opened = [], cleaned = [], fresh = 0\<rparr>
      | Some raw \<Rightarrow>
          (let (processedConnections, lg) = process raw ([], []) in
           \<lparr>clients = Map.empty, serverNameToTools = Map.empty,
            connections = Some processedConnections,
            cleanupFunctions = [], logged = lg, opened = [], cleaned = [], fresh = 0\<rparr>))"

text \<open>
  initializeConnections: one pass of the loop of lines 185-313, and the loop.  \<open>world\<close>
  tells what the attempt to connect does.  A connected client is stored with its cleanup
  function before its tools are loaded, and the tools that loadMcpTools returns are
  stored under the server's name, also when there are none.  The result is the map the
  method returns and the new state.
\<close>

definition connect_one ::
  "(string \<Rightarrow> Connection \<Rightarrow> attempt) \<Rightarrow> registry \<Rightarrow> string \<times> Connection \<Rightarrow> registry" where
  "connect_one world st entry =
     (case entry of (serverName, connection) \<Rightarrow>
        (case world serverName connection of
           Refused message \<Rightarrow> st\<lparr>logged := logged st @ [(Err, Connect_failed serverName message)]\<rparr>
         | Accepted l \<Rightarrow>
             st\<lparr>clients := (clients st)(serverName \<mapsto> fresh st),
                cleanupFunctions := cleanupFunctions st @ [fresh st],
                opened := opened st @ [(serverName, fresh st)],
                fresh := Suc (fresh st),
                serverNameToTools := (serverNameToTools st)(serverName \<mapsto> fst (loadMcpTools l)),
                logged := logged st @ snd (loadMcpTools l)\<rparr>))"

definition initializeConnections ::
  "(string \<Rightarrow> Connection \<Rightarrow> attempt) \<Rightarrow> registry \<Rightarrow> (string \<rightharpoonup> Tool list) \<times> registry" where
  "initializeConnections world st =
     (case connections st of
        None \<Rightarrow> (Map.empty, st\<lparr>logged := logged st @ [(Warn, No_connections)]\<rparr>)
      | Some cs \<Rightarrow>
          (let st' = foldl (connect_one world) st cs in (serverNameToTools st', st')))"

definition getClient :: "registry \<Rightarrow> string \<Rightarrow> nat option" where
  "getClient st serverName = clients st serverName"

text \<open>
  close: every stored cleanup function is awaited inside its own \<open>try\<close>; \<open>throws\<close>
  tells which of them throw.
\<close>

definition run_cleanup :: "(nat \<Rightarrow> bool) \<Rightarrow> registry \<Rightarrow> nat \<Rightarrow> registry" where
  "run_cleanup throws st cleanup =
     (let st' = st\<lparr>cleaned := cleaned st @ [cleanup]\<rparr> in
      if throws cleanup then st'\<lparr>logged := logged st' @ [(Err, Cleanup_failed cleanup)]\<rparr> else st')"

definition close :: "(nat \<Rightarrow> bool) \<Rightarrow> registry \<Rightarrow> registry" where
  "close throws st =
     (foldl (run_cleanup throws) st (cleanupFunctions st))
       \<lparr>cleanupFunctions := [], clients := Map.empty, serverNameToTools := Map.empty\<rparr>"

text \<open>
  The three methods that connect one server: each replaces \<open>connections\<close> by the single
  new connection and calls initializeConnections.
\<close>

definition connectToServer ::
  "string \<Rightarrow> jsval \<Rightarrow> (string \<Rightarrow> Connection \<Rightarrow> attempt)
    \<Rightarrow> registry \<Rightarrow> (string \<rightharpoonup> Tool list) \<times> registry" where
  "connectToServer serverName serverInstance world st =
     initializeConnections world
       (st\<lparr>connections := Some [(serverName, ProgrammaticConnection serverInstance)]\<rparr>)"

definition connectToServerViaStdio ::
  "string \<Rightarrow> string \<Rightarrow> jsval list \<Rightarrow> jsval option \<Rightarrow> (string \<Rightarrow> Connection \<Rightarrow> attempt)
    \<Rightarrow> registry \<Rightarrow> (string \<rightharpoonup> Tool list) \<times> registry" where
  "connectToServerViaStdio serverName command args env world st =
     initializeConnections world
       (st\<lparr>connections := Some [(serverName, StdioConnection command args env None None)]\<rparr>)"

definition connectToServerViaSSE ::
  "string \<Rightarrow> string \<Rightarrow> jsval option \<Rightarrow> bool option \<Rightarrow> (string \<Rightarrow> Connection \<Rightarrow> attempt)
    \<Rightarrow> registry \<Rightarrow> (string \<rightharpoonup> Tool list) \<times> registry" where
  "connectToServerViaSSE serverName url headers useNodeEventSource world st =
     initializeConnections world
       (st\<lparr>connections :=
            Some [(serverName,
                   SSEConnection url
                     (case headers of Some h \<Rightarrow> (if falsy h then None else Some h) | None \<Rightarrow> None)
                     (if useNodeEventSource = Some True then Some True else None))]\<rparr>)"


text \<open>
  The sessions under a name that were opened and whose cleanup function has not been
  invoked, and the states a client can be in.
\<close>

definition live_sessions :: "registry \<Rightarrow> string \<Rightarrow> nat list" where
  "live_sessions st serverName =
     map snd (filter (\<lambda>(n, i). n = serverName \<and> i \<notin> set (cleaned st)) (opened st))"

inductive reachable :: "registry \<Rightarrow> bool" where
  created: "reachable (new_client cfg)"
| initialized: "reachable st \<Longrightarrow> reachable (snd (initializeConnections world st))"
| programmatic: "reachable st \<Longrightarrow> reachable (snd (connectToServer serverName server world st))"
| stdio: "reachable st \<Longrightarrow> reachable (snd (connectToServerViaStdio serverName command args env world st))"
| sse: "reachable st \<Longrightarrow> reachable (snd (connectToServerViaSSE serverName url headers flag world st))"
| closed: "reachable st \<Longrightarrow> reachable (close throws st)"

definition stored :: "registry \<Rightarrow> bool" where
  "stored st =
     ((\<forall>i \<in> set (cleanupFunctions st). i < fresh st) \<and>
      (\<forall>i \<in> ran (clients st). i \<in> set (cleanupFunctions st)) \<and>
      (\<forall>i \<in> snd ` set (opened st). i < fresh st) \<and>
      (\<forall>i \<in> snd ` set (opened st). i \<notin> set (cleaned st) \<longrightarrow> i \<in> set (cleanupFunctions st)))"

text \<open>Values for the examples.\<close>

definition math_spec :: jsval where
  "math_spec =
     JObj [(''transport'', JStr ''stdio''), (''command'', JStr ''python''),
           (''args'', JArr [JStr ''./examples/math_server.py''])]"



definition add_tool :: ToolInfo where
  "add_tool =
     \<lparr>name = Some ''add'', description = Some ''Add two numbers'',
      inputSchema = JObj [(''type'', JStr ''object'')]\<rparr>"

definition sample_world :: "string \<Rightarrow> Connection \<Rightarrow> attempt" where
  "sample_world serverName connection =
     (if serverName = ''files'' then Refused ''spawn files-server ENOENT''
      else if serverName = ''search'' then Accepted (List_failed ''Method not found'')
      else Accepted (Listed [add_tool]))"


definition first_throws :: "nat \<Rightarrow> bool" where
  "first_throws cleanup = (cleanup = 0)"

subsection \<open>Facts about the registry\<close>



















lemma run_cleanups:
  "cleaned (foldl (run_cleanup throws) st cs) = cleaned st @ cs \<and>
   opened (foldl (run_cleanup throws) st cs) = opened st \<and>
   fresh (foldl (run_cleanup throws) st cs) = fresh st \<and>
   connections (foldl (run_cleanup throws) st cs) = connections st"
  by (induction cs arbitrary: st) (simp_all add: run_cleanup_def Let_def)

lemma stored_connect_one: "stored st \<Longrightarrow> stored (connect_one world st entry)"
proof (cases entry)
  case (Pair serverName connection)
  assume s: "stored st"
  show ?thesis
  proof (cases "world serverName connection")
    case (Refused m)
    then show ?thesis using s Pair by (simp add: connect_one_def stored_def)
  next
    case (Accepted l)
    have "ran ((clients st)(serverName \<mapsto> fresh st)) \<subseteq> insert (fresh st) (ran (clients st))"
      by (auto simp: ran_def)
    then show ?thesis using s Pair Accepted
      by (auto simp: connect_one_def stored_def less_Suc_eq)
  qed
qed

lemma stored_connect_all: "stored st \<Longrightarrow> stored (foldl (connect_one world) st cs)"
  by (induction cs arbitrary: st) (simp_all add: stored_connect_one)

lemma stored_connections [simp]: "stored (st\<lparr>connections := c\<rparr>) = stored st"
  by (simp add: stored_def)

lemma stored_logged [simp]: "stored (st\<lparr>logged := c\<rparr>) = stored st"
  by (simp add: stored_def)

lemma stored_initialize: "stored st \<Longrightarrow> stored (snd (initializeConnections world st))"
  by (cases "connections st") (simp_all add: initializeConnections_def Let_def stored_connect_all)

lemma stored_close: "stored st \<Longrightarrow> stored (close throws st)"
proof -
  assume s: "stored st"
  let ?st = "foldl (run_cleanup throws) st (cleanupFunctions st)"
  have "cleaned ?st = cleaned st @ cleanupFunctions st" "opened ?st = opened st" "fresh ?st = fresh st"
    using run_cleanups [of throws st "cleanupFunctions st"] by simp_all
  then show ?thesis using s by (auto simp: close_def stored_def)
qed

lemma reachable_stored: "reachable st \<Longrightarrow> stored st"
proof (induction rule: reachable.induct)
  case (created cfg)
  show ?case by (auto simp: new_client_def stored_def split: option.splits prod.splits)
next
  case (initialized st world)
  then show ?case by (simp add: stored_initialize)
next
  case (programmatic st serverName server world)
  then show ?case by (simp add: connectToServer_def stored_initialize)
next
  case (stdio st serverName command args env world)
  then show ?case by (simp add: connectToServerViaStdio_def stored_initialize)
next
  case (sse st serverName url headers flag world)
  then show ?case by (simp add: connectToServerViaSSE_def stored_initialize)
next
  case (closed st throws)
  then show ?case by (simp add: stored_close)
qed

lemma add_tool_listed: "snd (loadMcpTools (Listed [add_tool])) = []"
  by (simp add: loadMcpTools_def add_tool_def)

lemma connected_math:
  "snd (initializeConnections sample_world (new_client (Some [(''math'', math_spec)])))
     = \<lparr>clients = [''math'' \<mapsto> 0],
        serverNameToTools = [''math'' \<mapsto> fst (loadMcpTools (Listed [add_tool]))],
        connections = Some [(''math'',
           StdioConnection ''python'' [JStr ''./examples/math_server.py''] None None None)],
        cleanupFunctions = [0], logged = [], opened = [(''math'', 0)], cleaned = [], fresh = 1\<rparr>"
  by (simp add: initializeConnections_def new_client_def math_spec_def validate_def is_object_def
      connect_one_def sample_world_def add_tool_listed Let_def)

subsection \<open>Claims about the registry\<close>




text \<open>
  Claim C7.  close() invokes every stored cleanup function exactly once, in order,
  whether or not some of them throw: the invocations it adds are the stored list.
  Afterwards the list and both maps are empty, and the session lookup returns
  \<open>undefined\<close> for every name.
\<close>

theorem close_runs_every_cleanup:
  "cleaned (close throws st) = cleaned st @ cleanupFunctions st \<and>
   cleanupFunctions (close throws st) = [] \<and>
   serverNameToTools (close throws st) = Map.empty \<and>
   (\<forall>serverName. getClient (close throws st) serverName = None)"
  by (simp add: close_def run_cleanups getClient_def)

text \<open>
  Claim C7 at two connections whose first cleanup function throws: both are invoked, the
  failure is logged, and the lookup of a connected name returns nothing afterwards.
\<close>

theorem close_runs_every_cleanup_witness:
  "cleanupFunctions
     (snd (initializeConnections sample_world
        (new_client (Some [(''math'', math_spec), (''calc'', math_spec)])))) = [0, 1] \<and>
   getClient
     (snd (initializeConnections sample_world
        (new_client (Some [(''math'', math_spec), (''calc'', math_spec)])))) ''calc'' = Some 1 \<and>
   cleaned
     (close first_throws
       (snd (initializeConnections sample_world
          (new_client (Some [(''math'', math_spec), (''calc'', math_spec)]))))) = [0, 1] \<and>
   (Err, Cleanup_failed 0) \<in> set (logged
     (close first_throws
       (snd (initializeConnections sample_world
          (new_client (Some [(''math'', math_spec), (''calc'', math_spec)])))))) \<and>
   getClient
     (close first_throws
       (snd (initializeConnections sample_world
          (new_client (Some [(''math'', math_spec), (''calc'', math_spec)]))))) ''calc'' = None"
proof -
  let ?st = "snd (initializeConnections sample_world
        (new_client (Some [(''math'', math_spec), (''calc'', math_spec)])))"
  have m: "validate n math_spec
      = Inr (StdioConnection ''python'' [JStr ''./examples/math_server.py''] None None None)" for n
    by (simp add: math_spec_def validate_def is_object_def)
  have o: "typeof_object math_spec" "math_spec \<noteq> JNull" by (simp_all add: math_spec_def)
  have st: "cleanupFunctions ?st = [0, 1]" "cleaned ?st = []" "getClient ?st ''calc'' = Some 1"
    by (simp_all add: initializeConnections_def new_client_def m o connect_one_def sample_world_def
        getClient_def Let_def)
  have l: "(Err, Cleanup_failed 0) \<in> set (logged (close first_throws ?st))"
    by (simp add: close_def st run_cleanup_def first_throws_def Let_def)
  show ?thesis using close_runs_every_cleanup [of first_throws ?st] st l by simp
qed

text \<open>
  Claim C8, as amended.  The session lookup maps a name to at most one session (it is a
  map).  In every reachable state, a connection superseded by a new connection under the
  same name is replaced in the lookup at that moment, but it is not destroyed then: no
  cleanup function is invoked, the cleanup function of the superseded connection stays
  stored beside the new one, and the next close() invokes it.
\<close>

theorem superseded_connection_kept_until_close:
  assumes "reachable st"
    and "getClient st serverName = Some old"
    and "world serverName (StdioConnection command args env None None) = Accepted l"
  shows "getClient (snd (connectToServerViaStdio serverName command args env world st)) serverName
           = Some (fresh st) \<and>
         fresh st \<noteq> old \<and>
         cleaned (snd (connectToServerViaStdio serverName command args env world st)) = cleaned st \<and>
         cleanupFunctions (snd (connectToServerViaStdio serverName command args env world st))
           = cleanupFunctions st @ [fresh st] \<and>
         old \<in> set (cleanupFunctions st) \<and>
         old \<in> set (cleaned (close throws
                  (snd (connectToServerViaStdio serverName command args env world st))))"
proof -
  have s: "stored st" using assms(1) by (rule reachable_stored)
  have old: "old \<in> set (cleanupFunctions st)" "old < fresh st"
    using s assms(2) by (auto simp: stored_def getClient_def ran_def)
  let ?st' = "snd (connectToServerViaStdio serverName command args env world st)"
  have st': "?st' = connect_one world (st\<lparr>connections := Some [(serverName, StdioConnection command args env None None)]\<rparr>)
      (serverName, StdioConnection command args env None None)"
    by (simp add: connectToServerViaStdio_def initializeConnections_def Let_def)
  have 1: "getClient ?st' serverName = Some (fresh st)"
    and 2: "cleaned ?st' = cleaned st"
    and 3: "cleanupFunctions ?st' = cleanupFunctions st @ [fresh st]"
    unfolding st' using assms(3) by (simp_all add: connect_one_def getClient_def)
  have 4: "old \<in> set (cleaned (close throws ?st'))"
    using run_cleanups [of throws ?st' "cleanupFunctions ?st'"] 3 old(1) by (simp add: close_def)
  show ?thesis using 1 2 3 4 old by simp
qed

text \<open>
  Claim C8 as amended, at the client of one of the repository's examples: \<open>math\<close> is
  configured and connected, then connected again through connectToServerViaStdio.
\<close>

theorem superseded_connection_kept_until_close_witness:
  "reachable (snd (initializeConnections sample_world (new_client (Some [(''math'', math_spec)])))) \<and>
   getClient (snd (initializeConnections sample_world (new_client (Some [(''math'', math_spec)]))))
      ''math'' = Some 0 \<and>
   getClient
     (snd (connectToServerViaStdio ''math'' ''npx'' [JStr ''-y'', JStr ''@modelcontextprotocol/server-math'']
             None sample_world
             (snd (initializeConnections sample_world (new_client (Some [(''math'', math_spec)]))))))
      ''math'' = Some 1 \<and>
   cleaned
     (snd (connectToServerViaStdio ''math'' ''npx'' [JStr ''-y'', JStr ''@modelcontextprotocol/server-math'']
             None sample_world
             (snd (initializeConnections sample_world (new_client (Some [(''math'', math_spec)]))))))
      = [] \<and>
   cleanupFunctions
     (snd (connectToServerViaStdio ''math'' ''npx'' [JStr ''-y'', JStr ''@modelcontextprotocol/server-math'']
             None sample_world
             (snd (initializeConnections sample_world (new_client (Some [(''math'', math_spec)]))))))
      = [0, 1] \<and>
   0 \<in> set (cleaned (close first_throws
     (snd (connectToServerViaStdio ''math'' ''npx'' [JStr ''-y'', JStr ''@modelcontextprotocol/server-math'']
             None sample_world
             (snd (initializeConnections sample_world (new_client (Some [(''math'', math_spec)]))))))))"
proof -
  let ?st = "snd (initializeConnections sample_world (new_client (Some [(''math'', math_spec)])))"
  have r: "reachable ?st" by (intro reachable.intros)
  have g: "getClient ?st ''math'' = Some 0" by (simp add: connected_math getClient_def)
  have a: "sample_world ''math''
      (StdioConnection ''npx'' [JStr ''-y'', JStr ''@modelcontextprotocol/server-math''] None None None)
      = Accepted (Listed [add_tool])"
    by (simp add: sample_world_def)
  have f: "fresh ?st = 1" "cleaned ?st = []" "cleanupFunctions ?st = [0]"
    by (simp_all add: connected_math)
  from superseded_connection_kept_until_close
      [of ?st "''math''" 0 sample_world "''npx''"
          "[JStr ''-y'', JStr ''@modelcontextprotocol/server-math'']" None "Listed [add_tool]"
          first_throws, OF r g a] r g f
  show ?thesis by simp
qed

text \<open>
  Claim C8 as stated fails in that state: two sessions are live under the name
  \<open>math\<close>, and no cleanup function has been invoked.
\<close>

theorem superseded_session_stays_live:
  "live_sessions
     (snd (connectToServerViaStdio ''math'' ''npx'' [JStr ''-y'', JStr ''@modelcontextprotocol/server-math'']
             None sample_world
             (snd (initializeConnections sample_world (new_client (Some [(''math'', math_spec)]))))))
     ''math'' = [0, 1] \<and>
   cleaned
     (snd (connectToServerViaStdio ''math'' ''npx'' [JStr ''-y'', JStr ''@modelcontextprotocol/server-math'']
             None sample_world
             (snd (initializeConnections sample_world (new_client (Some [(''math'', math_spec)]))))))
     = []"
  unfolding connected_math
  by (simp add: connectToServerViaStdio_def initializeConnections_def connect_one_def
      sample_world_def live_sessions_def Let_def)

section \<open>Deadlines (resources/resource-utils and MCPToolAdapter)\<close>

text \<open>
  A promise is given by its fate: \<open>None\<close> when it never settles, and otherwise the time at
  which it settles, in milliseconds after the call that created it, with the exception it
  rejects with or the value it resolves to.  What a call that should return a promise
  does is to throw at once or to return one.
\<close>

type_synonym 'a promise = "(rat \<times> (exn + 'a)) option"

datatype 'a issued = Raised exn | Promised "'a promise"

text \<open>
  A JavaScript number, as the \<open>timeout\<close> option is one; \<open>!n\<close> holds of zero and of NaN.
\<close>

datatype number = Finite rat | NaN | PlusInfinity | MinusInfinity

fun falsy_number :: "number \<Rightarrow> bool" where
  "falsy_number (Finite q) = (q = 0)"
| "falsy_number NaN = True"
| "falsy_number PlusInfinity = False"
| "falsy_number MinusInfinity = False"

text \<open>
  \<open>setTimeout(f, ms)\<close> in Node.js, the runtime of the adapter: a delay that is not
  between 1 and \<open>TIMEOUT_MAX\<close> = 2147483647 is replaced by 1.  The timer is taken to
  fire when its delay has passed.
\<close>

definition TIMEOUT_MAX :: rat where
  "TIMEOUT_MAX = 2147483647"

fun timer_delay :: "number \<Rightarrow> rat" where
  "timer_delay (Finite q) = (if 1 \<le> q \<and> q \<le> TIMEOUT_MAX then q else 1)"
| "timer_delay NaN = 1"
| "timer_delay PlusInfinity = 1"
| "timer_delay MinusInfinity = 1"

text \<open>
  \<open>new Promise((_, reject) => setTimeout(() => reject(e), ms))\<close>: rejects with \<open>e\<close>
  when the timer fires.
\<close>

definition rejectAfter :: "number \<Rightarrow> exn \<Rightarrow> 'a promise" where
  "rejectAfter ms e = Some (timer_delay ms, Inl e)"

text \<open>
  \<open>Promise.race([p, q])\<close> settles as the promise that settles first does; when both
  settle at the same time the one listed first is taken.
\<close>

definition race :: "'a promise \<Rightarrow> 'a promise \<Rightarrow> 'a promise" where
  "race p q =
     (case p of
        None \<Rightarrow> q
      | Some (t, r) \<Rightarrow>
          (case q of
             None \<Rightarrow> p
           | Some (u, s) \<Rightarrow> if t \<le> u then p else q))"

text \<open>
  \<open>await p\<close> followed by code that does not wait again: the caller settles when \<open>p\<close>
  does, with what the code makes of the outcome of \<open>p\<close>.
\<close>

definition await :: "'a promise \<Rightarrow> (exn + 'a \<Rightarrow> exn + 'b) \<Rightarrow> 'b promise" where
  "await p k = (case p of None \<Rightarrow> None | Some (t, r) \<Rightarrow> Some (t, k r))"

text \<open>\<open>error instanceof Error ? error.message : String(error)\<close>.\<close>

fun message :: "exn \<Rightarrow> string" where
  "message (ToolException m) = m"
| "message (ZodError m) = m"
| "message (Error m) = m"
| "message (Thrown s) = s"

definition DEFAULT_TIMEOUT :: number where
  "DEFAULT_TIMEOUT = Finite 5000"

text \<open>
  \<open>options.timeout || DEFAULT_TIMEOUT\<close>: the argument is the \<open>timeout\<close> field of the
  options, \<open>None\<close> when it is absent.
\<close>

definition deadline :: "number option \<Rightarrow> number" where
  "deadline options =
     (case options of
        None \<Rightarrow> DEFAULT_TIMEOUT
      | Some ms \<Rightarrow> if falsy_number ms then DEFAULT_TIMEOUT else ms)"

text \<open>The outer \<open>catch\<close> of listResources (part_006, lines 78-83).\<close>

definition failed_to_list :: "exn \<Rightarrow> exn" where
  "failed_to_list e = Error (''Failed to list resources: '' @ message e)"

text \<open>
  What listResources does with the outcome of the race (part_006, lines 61-77): a
  ZodError gives the empty list, any other exception goes to the outer \<open>catch\<close>, a
  response without \<open>resources\<close> gives the empty list.
\<close>

definition listed :: "exn + jsval \<Rightarrow> exn + jsval" where
  "listed r =
     (case r of
        Inl (ZodError m) \<Rightarrow> Inr (JArr [])
      | Inl e \<Rightarrow> Inl (failed_to_list e)
      | Inr response \<Rightarrow>
          (if falsy response then Inr (JArr [])
           else case get response ''resources'' of
             None \<Rightarrow> Inr (JArr [])
           | Some resources \<Rightarrow> if falsy resources then Inr (JArr []) else Inr resources))"

text \<open>
  listResources (part_006, lines 35-84).  The first argument renders the timeout in the
  template string of line 50, a conversion of the JavaScript engine; \<open>request\<close> tells
  what \<open>mcpClient.request({method: 'resources/list'}, ...)\<close> does on each session.  A
  missing session is reported before the \<open>try\<close>, so at once and unwrapped; a request
  that throws at once is caught by the outer \<open>catch\<close>, whatever it throws (the timer
  promise, created before, is then left without a handler).
\<close>

definition listResources ::
  "(number \<Rightarrow> string) \<Rightarrow> (nat \<Rightarrow> jsval issued) \<Rightarrow> registry \<Rightarrow> string \<Rightarrow> number option
    \<Rightarrow> jsval promise" where
  "listResources render request client serverName options =
     (case getClient client serverName of
        None \<Rightarrow> Some (0, Inl (Error (''Server '' @ serverName @ '' not found'')))
      | Some mcpClient \<Rightarrow>
          (let timeout = deadline options;
               timeoutPromise =
                 rejectAfter timeout
                   (Error (''Timeout listing resources after '' @ render timeout @ ''ms''))
           in case request mcpClient of
                Raised e \<Rightarrow> Some (0, Inl (failed_to_list e))
              | Promised requestPromise \<Rightarrow> await (race requestPromise timeoutPromise) listed))"

text \<open>
  The asynchronous \<open>_call\<close> of the adapter (tools.ts, lines 516-588): the only thing it
  waits for is \<open>client.callTool\<close> (line 527), and what that call does is the second
  argument; \<open>None\<close> there is a missing client (line 522).  What is made of the reply is
  \<^const>\<open>call\<close>.
\<close>

fun settled :: "outcome \<Rightarrow> exn + string" where
  "settled (Resolved s) = Inr s"
| "settled (Rejected e) = Inl e"

fun replied :: "exn + ToolResponse option \<Rightarrow> reply" where
  "replied (Inl e) = Threw e"
| "replied (Inr result) = Returned result"

definition callAsync :: "string \<Rightarrow> ToolResponse option issued option \<Rightarrow> string promise" where
  "callAsync toolName client =
     (case client of
        None \<Rightarrow> Some (0, settled (call toolName None))
      | Some (Raised e) \<Rightarrow> Some (0, settled (call toolName (Some (Threw e))))
      | Some (Promised callTool) \<Rightarrow>
          await callTool (\<lambda>r. settled (call toolName (Some (replied r)))))"

text \<open>A response that has not arrived when \<open>ms\<close> milliseconds have passed.\<close>

definition unanswered :: "rat \<Rightarrow> 'a promise \<Rightarrow> bool" where
  "unanswered ms p = (case p of None \<Rightarrow> True | Some (t, r) \<Rightarrow> ms < t)"

text \<open>The rendering of whole numbers of milliseconds, for the examples.\<close>

definition sample_render :: "number \<Rightarrow> string" where
  "sample_render n =
     (case n of Finite q \<Rightarrow> (if 0 \<le> q then dec (nat \<lfloor>q\<rfloor>) else ''-'' @ dec (nat \<lfloor>- q\<rfloor>))
      | NaN \<Rightarrow> ''NaN'' | PlusInfinity \<Rightarrow> ''Infinity'' | MinusInfinity \<Rightarrow> ''-Infinity'')"

subsection \<open>Facts about deadlines\<close>

lemma timer_delay_positive: "1 \<le> timer_delay ms"
  by (cases ms) simp_all

lemma race_unanswered:
  "unanswered (timer_delay ms) p \<Longrightarrow> race p (rejectAfter ms e) = rejectAfter ms e"
  by (auto simp: unanswered_def race_def rejectAfter_def split: option.splits)

lemma race_bounded:
  "\<exists>t r. race p (rejectAfter ms e) = Some (t, r) \<and> t \<le> timer_delay ms"
  by (auto simp: race_def rejectAfter_def split: option.splits)

lemma await_bounded:
  "\<exists>t r. p = Some (t, r) \<and> t \<le> ms \<Longrightarrow> \<exists>t r. await p k = Some (t, r) \<and> t \<le> ms"
  by (auto simp: await_def)

lemma listed_timeout:
  "listed (Inl (Error m)) = Inl (Error (''Failed to list resources: '' @ m))"
  by (simp add: listed_def failed_to_list_def)

lemma dec_100: "dec 100 = ''100''"
  by (simp add: dec.simps digit_def)

lemma dec_5000: "dec 5000 = ''5000''"
  by (simp add: dec.simps digit_def)

lemma dec_2147483648: "dec 2147483648 = ''2147483648''"
  by (simp add: dec.simps digit_def)

subsection \<open>Claim about deadlines\<close>

text \<open>
  Claim C9, as amended.  Listing the resources of a connected server races the request
  against a timer set to the configured timeout, or to 5000 ms when none, 0 or NaN is
  given.  The timer fires after that many milliseconds when the number lies between 1
  and 2147483647, and after 1 ms for any other number.  Whatever the request does, the
  call settles when the timer fires at the latest, and when the response has not arrived
  by then the call rejects at that moment with the timeout error.  An invocation through
  the tool adapter has no deadline: it settles exactly when \<open>client.callTool\<close> does, and
  never when that never does.
\<close>

theorem resource_listing_rejects_at_deadline:
  assumes "getClient client serverName = Some mcpClient"
    and "request mcpClient = Promised p"
    and "unanswered (timer_delay (deadline options)) p"
  shows "listResources render request client serverName options
           = Some (timer_delay (deadline options),
               Inl (Error (''Failed to list resources: Timeout listing resources after ''
                           @ render (deadline options) @ ''ms''))) \<and>
         (\<forall>other. \<exists>t r. listResources render other client serverName options = Some (t, r) \<and>
                          t \<le> timer_delay (deadline options)) \<and>
         (\<forall>q. timer_delay (deadline (Some (Finite q)))
                = (if q = 0 then 5000 else if 1 \<le> q \<and> q \<le> 2147483647 then q else 1)) \<and>
         timer_delay (deadline None) = 5000 \<and>
         callAsync toolName (Some (Promised None)) = None \<and>
         (\<forall>t r. \<exists>result. callAsync toolName (Some (Promised (Some (t, r)))) = Some (t, result))"
proof -
  let ?e = "Error (''Timeout listing resources after '' @ render (deadline options) @ ''ms'')"
  have 1: "listResources render request client serverName options
      = await (rejectAfter (deadline options) ?e) listed"
    using assms race_unanswered [of "deadline options" p ?e]
    by (simp add: listResources_def Let_def)
  have 2: "\<exists>t r. listResources render other client serverName options = Some (t, r) \<and>
      t \<le> timer_delay (deadline options)" for other
  proof (cases "other mcpClient")
    case (Raised e)
    have "(0 :: rat) \<le> timer_delay (deadline options)"
      using timer_delay_positive [of "deadline options"] by simp
    then show ?thesis using assms(1) Raised by (simp add: listResources_def Let_def)
  next
    case (Promised p')
    then show ?thesis
      using assms(1) await_bounded [OF race_bounded [of p' "deadline options" ?e]]
      by (simp add: listResources_def Let_def)
  qed
  have 3: "timer_delay (deadline (Some (Finite q)))
      = (if q = 0 then 5000 else if 1 \<le> q \<and> q \<le> 2147483647 then q else 1)" for q
    by (simp add: deadline_def DEFAULT_TIMEOUT_def TIMEOUT_MAX_def)
  have 4: "timer_delay (deadline None) = 5000"
    by (simp add: deadline_def DEFAULT_TIMEOUT_def TIMEOUT_MAX_def)
  have 5: "callAsync toolName (Some (Promised None)) = None"
    by (simp add: callAsync_def await_def)
  have 6: "\<exists>result. callAsync toolName (Some (Promised (Some (t, r)))) = Some (t, result)" for t r
    by (simp add: callAsync_def await_def)
  from 1 2 3 4 5 6 show ?thesis by (simp add: await_def rejectAfter_def listed_timeout)
qed

text \<open>
  Claim C9 at the connected server \<open>math\<close>: with a timeout of 100 ms and a request
  that is never answered the call rejects after 100 ms; with no timeout given and a
  response after 7 s it rejects after 5 s; with a timeout of 2147483648 ms and a response
  after 300 ms it rejects after 1 ms; a response after 20 ms is returned then.
\<close>

theorem resource_listing_rejects_at_deadline_witness:
  "listResources sample_render (\<lambda>c. Promised None)
     (snd (initializeConnections sample_world (new_client (Some [(''math'', math_spec)]))))
     ''math'' (Some (Finite 100))
     = Some (100, Inl (Error ''Failed to list resources: Timeout listing resources after 100ms'')) \<and>
   listResources sample_render (\<lambda>c. Promised (Some (7000, Inr (JObj [(''resources'', JArr [])]))))
     (snd (initializeConnections sample_world (new_client (Some [(''math'', math_spec)]))))
     ''math'' None
     = Some (5000, Inl (Error ''Failed to list resources: Timeout listing resources after 5000ms'')) \<and>
   listResources sample_render (\<lambda>c. Promised (Some (300, Inr (JObj [(''resources'', JArr [])]))))
     (snd (initializeConnections sample_world (new_client (Some [(''math'', math_spec)]))))
     ''math'' (Some (Finite 2147483648))
     = Some (1, Inl (Error ''Failed to list resources: Timeout listing resources after 2147483648ms'')) \<and>
   listResources sample_render
     (\<lambda>c. Promised (Some (20, Inr (JObj [(''resources'', JArr [JStr ''file:///a.txt''])]))))
     (snd (initializeConnections sample_world (new_client (Some [(''math'', math_spec)]))))
     ''math'' None
     = Some (20, Inr (JArr [JStr ''file:///a.txt'']))"
proof -
  let ?st = "snd (initializeConnections sample_world (new_client (Some [(''math'', math_spec)])))"
  have g: "getClient ?st ''math'' = Some 0"
    unfolding connected_math by (simp add: getClient_def)
  have a: "unanswered (timer_delay (deadline (Some (Finite 100)))) (None :: jsval promise)"
    by (simp add: unanswered_def)
  have b: "unanswered (timer_delay (deadline None))
      (Some (7000, Inr (JObj [(''resources'', JArr [])])))"
    by (simp add: unanswered_def deadline_def DEFAULT_TIMEOUT_def TIMEOUT_MAX_def)
  have c: "unanswered (timer_delay (deadline (Some (Finite 2147483648))))
      (Some (300, Inr (JObj [(''resources'', JArr [])])))"
    by (simp add: unanswered_def deadline_def DEFAULT_TIMEOUT_def TIMEOUT_MAX_def)
  have d: "listResources sample_render
      (\<lambda>c. Promised (Some (20, Inr (JObj [(''resources'', JArr [JStr ''file:///a.txt''])]))))
      ?st ''math'' None = Some (20, Inr (JArr [JStr ''file:///a.txt'']))"
    using g
    by (simp add: listResources_def Let_def race_def rejectAfter_def await_def listed_def
        deadline_def DEFAULT_TIMEOUT_def TIMEOUT_MAX_def)
  have r: "sample_render (Finite 100) = ''100''" "sample_render (Finite 5000) = ''5000''"
    "sample_render (Finite 2147483648) = ''2147483648''"
    by (simp_all add: sample_render_def dec_100 dec_5000 dec_2147483648)
  show ?thesis
    using resource_listing_rejects_at_deadline
        [of ?st "''math''" 0 "\<lambda>c. Promised None" None "Some (Finite 100)" sample_render "''add''",
         OF g _ a]
      resource_listing_rejects_at_deadline
        [of ?st "''math''" 0 "\<lambda>c. Promised (Some (7000, Inr (JObj [(''resources'', JArr [])])))"
            "Some (7000, Inr (JObj [(''resources'', JArr [])]))" None sample_render "''add''",
         OF g _ b]
      resource_listing_rejects_at_deadline
        [of ?st "''math''" 0 "\<lambda>c. Promised (Some (300, Inr (JObj [(''resources'', JArr [])])))"
            "Some (300, Inr (JObj [(''resources'', JArr [])]))" "Some (Finite 2147483648)"
            sample_render "''add''",
         OF g _ c]
      d r
    by (simp add: deadline_def DEFAULT_TIMEOUT_def TIMEOUT_MAX_def)
qed

text \<open>
  Claim C9 as stated fails for the adapter: an invocation of the tool \<open>add\<close> whose
  \<open>callTool\<close> is never answered never settles, so it does not reject.
\<close>

theorem adapter_call_has_no_deadline:
  "callAsync ''add'' (Some (Promised None)) = None"
  by (simp add: callAsync_def await_def)

section \<open>Schema normalisation on a store\<close>

text \<open>
  Whether normalisation writes to the object it is given cannot be read off a model in
  which objects are values, so here objects live in a store.  A value is a primitive or
  the address of a cell; a cell is an array (its elements, and the properties set on it)
  or a plain object (its properties, in insertion order); the store is the list of the
  cells allocated so far, and an object literal or \<open>JSON.parse\<close> allocates at its end.
\<close>

datatype hval = HNull | HBool bool | HNum rat | HStr string | HRef nat

datatype cell = Cell bool "hval list" "(string \<times> hval) list"

type_synonym heap = "cell list"

text \<open>Truthiness, property read, property write and \<open>!obj.key\<close> on the store.\<close>

fun falsy_h :: "hval \<Rightarrow> bool" where
  "falsy_h HNull = True"
| "falsy_h (HBool b) = (\<not> b)"
| "falsy_h (HNum n) = (n = 0)"
| "falsy_h (HStr s) = (s = [])"
| "falsy_h (HRef a) = False"

definition get_h :: "heap \<Rightarrow> nat \<Rightarrow> string \<Rightarrow> hval option" where
  "get_h h a k = (if a < length h then (case h ! a of Cell arr es ps \<Rightarrow> map_of ps k) else None)"

definition set_h :: "heap \<Rightarrow> nat \<Rightarrow> string \<Rightarrow> hval \<Rightarrow> heap" where
  "set_h h a k x =
     (if a < length h
      then h[a := (case h ! a of Cell arr es ps \<Rightarrow> Cell arr es (AList.update k x ps))]
      else h)"

definition missing_h :: "heap \<Rightarrow> nat \<Rightarrow> string \<Rightarrow> bool" where
  "missing_h h a k = (case get_h h a k of None \<Rightarrow> True | Some v \<Rightarrow> falsy_h v)"

text \<open>
  \<open>JSON.parse(JSON.stringify(schema))\<close> (line 107): every cell reached from the value
  is written again into fresh cells; the properties set on an array are not serialised.
  The first argument of \<open>copy\<close> bounds the nesting that is followed: a structure that
  contains itself exceeds every bound, and \<open>None\<close> is the exception that
  \<open>JSON.stringify\<close> throws then.
\<close>

fun copy_elems ::
  "(heap \<Rightarrow> hval \<Rightarrow> (heap \<times> hval) option) \<Rightarrow> heap \<Rightarrow> hval list \<Rightarrow> (heap \<times> hval list) option" where
  "copy_elems recur h [] = Some (h, [])"
| "copy_elems recur h (x # xs) =
     (case recur h x of
        None \<Rightarrow> None
      | Some (h1, x') \<Rightarrow>
          (case copy_elems recur h1 xs of
             None \<Rightarrow> None
           | Some (h2, xs') \<Rightarrow> Some (h2, x' # xs')))"

fun copy_props ::
  "(heap \<Rightarrow> hval \<Rightarrow> (heap \<times> hval) option) \<Rightarrow> heap \<Rightarrow> (string \<times> hval) list
    \<Rightarrow> (heap \<times> (string \<times> hval) list) option" where
  "copy_props recur h [] = Some (h, [])"
| "copy_props recur h ((k, x) # ps) =
     (case recur h x of
        None \<Rightarrow> None
      | Some (h1, x') \<Rightarrow>
          (case copy_props recur h1 ps of
             None \<Rightarrow> None
           | Some (h2, ps') \<Rightarrow> Some (h2, (k, x') # ps')))"

definition copy_cell ::
  "(heap \<Rightarrow> hval \<Rightarrow> (heap \<times> hval) option) \<Rightarrow> heap \<Rightarrow> nat \<Rightarrow> (heap \<times> hval) option" where
  "copy_cell recur h a =
     (if a < length h then
        (case h ! a of
           Cell arr es ps \<Rightarrow>
             (if arr then
                (case copy_elems recur h es of
                   None \<Rightarrow> None
                 | Some (h1, es') \<Rightarrow> Some (h1 @ [Cell True es' []], HRef (length h1)))
              else
                (case copy_props recur h ps of
                   None \<Rightarrow> None
                 | Some (h1, ps') \<Rightarrow> Some (h1 @ [Cell False [] ps'], HRef (length h1)))))
      else None)"

primrec copy :: "nat \<Rightarrow> heap \<Rightarrow> hval \<Rightarrow> (heap \<times> hval) option" where
  "copy 0 = (\<lambda>h v. case v of HRef a \<Rightarrow> None | _ \<Rightarrow> Some (h, v))"
| "copy (Suc n) = (\<lambda>h v. case v of HRef a \<Rightarrow> copy_cell (copy n) h a | _ \<Rightarrow> Some (h, v))"

text \<open>
  The repair of one object (lines 173-200), on the store: the new \<open>items\<close> schema is
  allocated and stored in the object.
\<close>

definition named_h :: "heap \<Rightarrow> nat \<Rightarrow> string \<Rightarrow> bool" where
  "named_h h a n =
     (get_h h a ''name'' = Some (HStr n) \<or>
      (case get_h h a ''parent'' of
         Some (HRef p) \<Rightarrow> get_h h p ''property'' = Some (HStr n)
       | _ \<Rightarrow> False))"

definition add_string_items :: "heap \<Rightarrow> nat \<Rightarrow> heap" where
  "add_string_items h a =
     set_h (h @ [Cell False [] [(''type'', HStr ''string'')]]) a ''items'' (HRef (length h))"

definition add_actions_items :: "heap \<Rightarrow> nat \<Rightarrow> heap" where
  "add_actions_items h a =
     set_h (h @ [Cell False [] [(''type'', HStr ''string'')],
                 Cell False [] [(''type'', HStr ''string'')],
                 Cell False [] [(''type'', HRef (length h)), (''selector'', HRef (length h + 1))],
                 Cell False [] [(''type'', HStr ''object''), (''properties'', HRef (length h + 2))]])
       a ''items'' (HRef (length h + 3))"

definition add_items_h :: "heap \<Rightarrow> nat \<Rightarrow> heap" where
  "add_items_h h a =
     (if get_h h a ''type'' = Some (HStr ''array'') \<and> missing_h h a ''items'' then
        (if named_h h a ''actions'' then add_actions_items h a
         else if named_h h a ''formats'' then add_string_items h a
         else add_string_items h a)
      else h)"

text \<open>
  \<open>prop.parent = {object: obj, property: key}\<close> and, for a property,
  \<open>prop.name = key\<close> (lines 215-216, 231, 247, 264).
\<close>

definition annotate_h :: "heap \<Rightarrow> nat \<Rightarrow> nat \<Rightarrow> string \<Rightarrow> string option \<Rightarrow> heap" where
  "annotate_h h a c p nm =
     (let h1 = set_h (h @ [Cell False [] [(''object'', HRef a), (''property'', HStr p)]])
                 c ''parent'' (HRef (length h))
      in case nm of None \<Rightarrow> h1 | Some n \<Rightarrow> set_h h1 c ''name'' (HStr n))"

text \<open>
  \<open>Object.entries\<close> of a value, the elements of a value that is an array, and the value
  of a property (\<open>undefined\<close> and \<open>null\<close> are not told apart).
\<close>

definition entries_h :: "heap \<Rightarrow> hval \<Rightarrow> (string \<times> hval) list" where
  "entries_h h v =
     (case v of
        HRef p \<Rightarrow>
          (if p < length h then
             (case h ! p of Cell arr es ps \<Rightarrow> zip (map dec [0..<length es]) es @ ps)
           else [])
      | _ \<Rightarrow> [])"

definition members_h :: "heap \<Rightarrow> hval \<Rightarrow> hval list" where
  "members_h h v =
     (case v of
        HRef p \<Rightarrow>
          (if p < length h then (case h ! p of Cell arr es ps \<Rightarrow> (if arr then es else []))
           else [])
      | _ \<Rightarrow> [])"

definition field_h :: "heap \<Rightarrow> nat \<Rightarrow> string \<Rightarrow> hval" where
  "field_h h a k = (case get_h h a k of None \<Rightarrow> HNull | Some v \<Rightarrow> v)"

text \<open>
  One sub-schema: a value that is an object is annotated and repaired; for any other value
  the source skips the entry or catches the TypeError of the assignment, and nothing is
  written.  The entry holds the property text of the annotation, the name when one is
  written, and the value.
\<close>

definition visit ::
  "(heap \<Rightarrow> hval \<Rightarrow> heap) \<Rightarrow> nat \<Rightarrow> heap \<Rightarrow> string \<times> string option \<times> hval \<Rightarrow> heap" where
  "visit recur a h entry =
     (case entry of (p, nm, v) \<Rightarrow>
        (case v of
           HRef c \<Rightarrow> (if c < length h then recur (annotate_h h a c p nm) (HRef c) else h)
         | _ \<Rightarrow> h))"

text \<open>
  fixArrayProperties (lines 162-280) on the store, in the order of the source: the
  object's own \<open>items\<close>, then its properties, its item schema, its pattern properties
  and the members of oneOf, anyOf and allOf, each list read when its loop starts.  The
  first argument of \<open>fixArrayProperties_h\<close> bounds the depth of the recursion.
\<close>

definition fix_body :: "(heap \<Rightarrow> hval \<Rightarrow> heap) \<Rightarrow> heap \<Rightarrow> nat \<Rightarrow> heap" where
  "fix_body recur h a =
     (let h1 = add_items_h h a;
          h2 = foldl (visit recur a) h1
                 (map (\<lambda>(key, v). (key, Some key, v)) (entries_h h1 (field_h h1 a ''properties'')));
          h3 = foldl (visit recur a) h2 [(''items'', None, field_h h2 a ''items'')];
          h4 = foldl (visit recur a) h3
                 (map (\<lambda>(pattern, v). (''patternProperties['' @ pattern @ '']'', None, v))
                    (entries_h h3 (field_h h3 a ''patternProperties'')));
          h5 = foldl (visit recur a) h4
                 (map (\<lambda>(i, v). (''oneOf['' @ dec i @ '']'', None, v))
                    (enumerate 0 (members_h h4 (field_h h4 a ''oneOf''))));
          h6 = foldl (visit recur a) h5
                 (map (\<lambda>(i, v). (''anyOf['' @ dec i @ '']'', None, v))
                    (enumerate 0 (members_h h5 (field_h h5 a ''anyOf''))))
      in foldl (visit recur a) h6
           (map (\<lambda>(i, v). (''allOf['' @ dec i @ '']'', None, v))
              (enumerate 0 (members_h h6 (field_h h6 a ''allOf'')))))"

primrec fixArrayProperties_h :: "nat \<Rightarrow> heap \<Rightarrow> hval \<Rightarrow> heap" where
  "fixArrayProperties_h 0 = (\<lambda>h v. h)"
| "fixArrayProperties_h (Suc n) =
     (\<lambda>h v. case v of HRef a \<Rightarrow> (if a < length h then fix_body (fixArrayProperties_h n) h a else h) | _ \<Rightarrow> h)"

text \<open>
  ensureValidToolSchema (lines 94-154) on the store: it returns the store and the value
  it returns in the source.  The \<open>catch\<close> of line 147 returns the argument.
\<close>

definition ensureValidToolSchema_h :: "nat \<Rightarrow> heap \<Rightarrow> hval \<Rightarrow> heap \<times> hval" where
  "ensureValidToolSchema_h n h schema =
     (if falsy_h schema then (h, schema)
      else case copy n h schema of
        None \<Rightarrow> (h, schema)
      | Some (h1, validatedSchema) \<Rightarrow>
          (case validatedSchema of
             HRef a \<Rightarrow>
               (if get_h h1 a ''type'' = Some (HStr ''object'') then
                  (let h2 = (if missing_h h1 a ''required''
                             then set_h (h1 @ [Cell True [] []]) a ''required'' (HRef (length h1))
                             else h1);
                       h3 = (if missing_h h2 a ''properties''
                             then set_h (h2 @ [Cell False [] []]) a ''properties'' (HRef (length h2))
                             else h2)
                   in (fixArrayProperties_h (Suc n) h3 (HRef a), HRef a))
                else if get_h h1 a ''type'' = Some (HStr ''array'') \<and> missing_h h1 a ''items''
                then (add_string_items h1 a, HRef a)
                else (h1, HRef a))
           | _ \<Rightarrow> (h1, schema)))"

subsection \<open>What normalisation leaves alone\<close>

text \<open>
  The cells below \<open>n0\<close> are the caller's.  A store is \<open>separate\<close> when no cell from
  \<open>n0\<close> on holds an address below \<open>n0\<close>, and it \<open>extends\<close> another one when the
  cells below \<open>n0\<close> are the same in both and it is separate.
\<close>

fun value_ok :: "nat \<Rightarrow> hval \<Rightarrow> bool" where
  "value_ok n0 (HRef r) = (n0 \<le> r)"
| "value_ok n0 HNull = True"
| "value_ok n0 (HBool b) = True"
| "value_ok n0 (HNum x) = True"
| "value_ok n0 (HStr s) = True"

fun cell_ok :: "nat \<Rightarrow> cell \<Rightarrow> bool" where
  "cell_ok n0 (Cell arr es ps) = (list_all (value_ok n0) es \<and> list_all (\<lambda>(k, v). value_ok n0 v) ps)"

definition separate :: "nat \<Rightarrow> heap \<Rightarrow> bool" where
  "separate n0 h = (n0 \<le> length h \<and> list_all (cell_ok n0) (drop n0 h))"

definition extends :: "nat \<Rightarrow> heap \<Rightarrow> heap \<Rightarrow> bool" where
  "extends n0 h h' = (take n0 h' = take n0 h \<and> length h \<le> length h' \<and> separate n0 h')"

lemma extends_refl: "separate n0 h \<Longrightarrow> extends n0 h h"
  by (simp add: extends_def)

lemma extends_trans: "extends n0 h h1 \<Longrightarrow> extends n0 h1 h2 \<Longrightarrow> extends n0 h h2"
  by (simp add: extends_def)

lemma extends_separate: "extends n0 h h' \<Longrightarrow> separate n0 h'"
  by (simp add: extends_def)

lemma extends_alloc:
  "separate n0 h \<Longrightarrow> cell_ok n0 c \<Longrightarrow> extends n0 h (h @ [c])"
  by (simp add: extends_def separate_def)

lemma separate_cell:
  "separate n0 h \<Longrightarrow> n0 \<le> a \<Longrightarrow> a < length h \<Longrightarrow> cell_ok n0 (h ! a)"
proof -
  assume s: "separate n0 h" and a: "n0 \<le> a" "a < length h"
  then have "drop n0 h ! (a - n0) = h ! a" by (simp add: separate_def)
  moreover have "a - n0 < length (drop n0 h)" using a by simp
  ultimately show ?thesis using s by (metis list_all_length separate_def)
qed

lemma update_ok:
  "list_all (\<lambda>(k, v). value_ok n0 v) ps \<Longrightarrow> value_ok n0 x \<Longrightarrow>
     list_all (\<lambda>(k, v). value_ok n0 v) (AList.update k' x ps)"
  by (induction ps) auto

lemma extends_set:
  assumes "separate n0 h" and "n0 \<le> a" and "value_ok n0 x"
  shows "extends n0 h (set_h h a k x)"
proof (cases "a < length h")
  case False
  then show ?thesis using assms by (simp add: set_h_def extends_refl)
next
  case True
  obtain arr es ps where c: "h ! a = Cell arr es ps" by (cases "h ! a")
  have ok: "cell_ok n0 (Cell arr es ps)" using separate_cell [OF assms(1,2) True] c by simp
  then have ok': "cell_ok n0 (Cell arr es (AList.update k x ps))"
    using assms(3) by (simp add: update_ok)
  have "drop n0 (h[a := Cell arr es (AList.update k x ps)])
      = (drop n0 h)[a - n0 := Cell arr es (AList.update k x ps)]"
    using assms(2) by (simp add: drop_update_swap)
  moreover have "list_all (cell_ok n0) ((drop n0 h)[a - n0 := Cell arr es (AList.update k x ps)])"
    using assms(1) ok' by (auto simp: separate_def list_all_iff dest: set_update_subset_insert [THEN subsetD])
  ultimately show ?thesis
    using assms(1,2) True c by (simp add: set_h_def extends_def separate_def)
qed

lemma get_ok:
  assumes "separate n0 h" and "n0 \<le> a" and "get_h h a k = Some v"
  shows "value_ok n0 v"
proof -
  have a: "a < length h" using assms(3) by (simp add: get_h_def split: if_splits)
  obtain arr es ps where c: "h ! a = Cell arr es ps" by (cases "h ! a")
  have "cell_ok n0 (Cell arr es ps)" using separate_cell [OF assms(1,2) a] c by simp
  moreover have "(k, v) \<in> set ps" using assms(3) a c by (auto simp: get_h_def dest: map_of_SomeD)
  ultimately show ?thesis by (auto simp: list_all_iff)
qed

lemma field_ok: "separate n0 h \<Longrightarrow> n0 \<le> a \<Longrightarrow> value_ok n0 (field_h h a k)"
  by (auto simp: field_h_def dest: get_ok split: option.splits)

lemma entries_outside: "\<not> p < length h \<Longrightarrow> entries_h h (HRef p) = []"
  by (simp add: entries_h_def)

lemma members_outside: "\<not> p < length h \<Longrightarrow> members_h h (HRef p) = []"
  by (simp add: members_h_def)

lemma entries_primitive [simp]: "entries_h h HNull = []" "entries_h h (HBool b) = []"
  "entries_h h (HNum n) = []" "entries_h h (HStr s) = []"
  by (simp_all add: entries_h_def)

lemma members_primitive [simp]: "members_h h HNull = []" "members_h h (HBool b) = []"
  "members_h h (HNum n) = []" "members_h h (HStr s) = []"
  by (simp_all add: members_h_def)

lemma entries_ok:
  assumes "separate n0 h" and "value_ok n0 v" and "(k, x) \<in> set (entries_h h v)"
  shows "value_ok n0 x"
proof (cases v)
  case (HRef p)
  have p: "n0 \<le> p" "p < length h"
    using assms(2,3) HRef entries_outside [of p h] by (cases "p < length h"; simp)+
  obtain arr es ps where c: "h ! p = Cell arr es ps" by (cases "h ! p")
  have ok: "cell_ok n0 (Cell arr es ps)" using separate_cell [OF assms(1) p] c by simp
  have "entries_h h v = zip (map dec [0..<length es]) es @ ps"
    using HRef p c by (simp add: entries_h_def)
  then have "x \<in> set es \<or> (k, x) \<in> set ps"
    using assms(3) by (auto dest: set_zip_rightD)
  then show ?thesis using ok by (auto simp: list_all_iff)
qed (use assms in auto)

lemma members_ok:
  assumes "separate n0 h" and "value_ok n0 v" and "x \<in> set (members_h h v)"
  shows "value_ok n0 x"
proof (cases v)
  case (HRef p)
  have p: "n0 \<le> p" "p < length h"
    using assms(2,3) HRef members_outside [of p h] by (cases "p < length h"; simp)+
  obtain arr es ps where c: "h ! p = Cell arr es ps" by (cases "h ! p")
  have ok: "cell_ok n0 (Cell arr es ps)" using separate_cell [OF assms(1) p] c by simp
  have "members_h h v = (if arr then es else [])"
    using HRef p c by (simp add: members_h_def)
  then have "x \<in> set es"
    using assms(3) by (cases arr) auto
  then show ?thesis using ok by (auto simp: list_all_iff)
qed (use assms in auto)

subsection \<open>Facts about the store\<close>

lemma extends_add_string_items:
  assumes "separate n0 h" and "n0 \<le> a"
  shows "extends n0 h (add_string_items h a)"
proof -
  have 1: "extends n0 h (h @ [Cell False [] [(''type'', HStr ''string'')]])"
    using assms(1) by (simp add: extends_alloc)
  have "n0 \<le> length h" using assms(1) by (simp add: separate_def)
  then have 2: "extends n0 (h @ [Cell False [] [(''type'', HStr ''string'')]])
      (set_h (h @ [Cell False [] [(''type'', HStr ''string'')]]) a ''items'' (HRef (length h)))"
    using extends_separate [OF 1] assms(2) by (simp add: extends_set)
  from extends_trans [OF 1 2] show ?thesis by (simp add: add_string_items_def)
qed

lemma extends_add_actions_items:
  assumes "separate n0 h" and "n0 \<le> a"
  shows "extends n0 h (add_actions_items h a)"
proof -
  let ?h = "h @ [Cell False [] [(''type'', HStr ''string'')],
                 Cell False [] [(''type'', HStr ''string'')],
                 Cell False [] [(''type'', HRef (length h)), (''selector'', HRef (length h + 1))],
                 Cell False [] [(''type'', HStr ''object''), (''properties'', HRef (length h + 2))]]"
  have n: "n0 \<le> length h" using assms(1) by (simp add: separate_def)
  then have 1: "extends n0 h ?h" using assms(1) by (simp add: extends_def separate_def)
  have 2: "extends n0 ?h (set_h ?h a ''items'' (HRef (length h + 3)))"
    using extends_separate [OF 1] assms(2) n by (simp add: extends_set)
  from extends_trans [OF 1 2] show ?thesis by (simp add: add_actions_items_def)
qed

lemma extends_add_items:
  "separate n0 h \<Longrightarrow> n0 \<le> a \<Longrightarrow> extends n0 h (add_items_h h a)"
  by (simp add: add_items_h_def extends_add_string_items extends_add_actions_items extends_refl)

lemma extends_annotate:
  assumes "separate n0 h" and "n0 \<le> a" and "n0 \<le> c"
  shows "extends n0 h (annotate_h h a c p nm)"
proof -
  let ?h = "h @ [Cell False [] [(''object'', HRef a), (''property'', HStr p)]]"
  have n: "n0 \<le> length h" using assms(1) by (simp add: separate_def)
  have 1: "extends n0 h ?h" using assms(1,2) by (simp add: extends_alloc)
  have 2: "extends n0 ?h (set_h ?h c ''parent'' (HRef (length h)))"
    using extends_separate [OF 1] assms(3) n by (simp add: extends_set)
  have 3: "extends n0 h (set_h ?h c ''parent'' (HRef (length h)))"
    using extends_trans [OF 1 2] .
  show ?thesis
  proof (cases nm)
    case None
    then show ?thesis using 3 by (simp add: annotate_h_def)
  next
    case (Some m)
    have "extends n0 (set_h ?h c ''parent'' (HRef (length h)))
        (set_h (set_h ?h c ''parent'' (HRef (length h))) c ''name'' (HStr m))"
      using extends_separate [OF 3] assms(3) by (simp add: extends_set)
    from extends_trans [OF 3 this] show ?thesis using Some by (simp add: annotate_h_def)
  qed
qed

text \<open>A store transformer that keeps the caller's cells whatever object it is applied to.\<close>

definition keeps :: "nat \<Rightarrow> (heap \<Rightarrow> hval \<Rightarrow> heap) \<Rightarrow> bool" where
  "keeps n0 recur = (\<forall>h v. separate n0 h \<longrightarrow> value_ok n0 v \<longrightarrow> extends n0 h (recur h v))"

lemma extends_visit:
  assumes "keeps n0 recur" and "separate n0 h" and "n0 \<le> a"
    and "value_ok n0 (snd (snd entry))"
  shows "extends n0 h (visit recur a h entry)"
proof -
  obtain p nm v where e: "entry = (p, nm, v)" by (cases entry)
  show ?thesis
  proof (cases v)
    case (HRef c)
    show ?thesis
    proof (cases "c < length h")
      case True
      have c: "n0 \<le> c" using assms(4) e HRef by simp
      have 1: "extends n0 h (annotate_h h a c p nm)"
        using extends_annotate [OF assms(2,3) c] .
      have 2: "extends n0 (annotate_h h a c p nm) (recur (annotate_h h a c p nm) (HRef c))"
        using assms(1) extends_separate [OF 1] c by (simp add: keeps_def)
      from extends_trans [OF 1 2] show ?thesis using e HRef True by (simp add: visit_def)
    next
      case False
      then show ?thesis using e HRef assms(2) by (simp add: visit_def extends_refl)
    qed
  qed (use e assms(2) in \<open>simp_all add: visit_def extends_refl\<close>)
qed

lemma extends_visit_all:
  assumes "keeps n0 recur" and "n0 \<le> a"
  shows "separate n0 h \<Longrightarrow> list_all (\<lambda>entry. value_ok n0 (snd (snd entry))) es \<Longrightarrow>
           extends n0 h (foldl (visit recur a) h es)"
proof (induction es arbitrary: h)
  case Nil
  then show ?case by (simp add: extends_refl)
next
  case (Cons entry es)
  have 1: "extends n0 h (visit recur a h entry)"
    using extends_visit [OF assms(1) Cons.prems(1) assms(2)] Cons.prems(2) by simp
  have 2: "extends n0 (visit recur a h entry) (foldl (visit recur a) (visit recur a h entry) es)"
    using Cons.IH [OF extends_separate [OF 1]] Cons.prems(2) by simp
  from extends_trans [OF 1 2] show ?case by simp
qed

lemma entries_all_ok:
  assumes "separate n0 h" and "n0 \<le> a"
  shows "list_all (\<lambda>entry. value_ok n0 (snd (snd entry)))
           (map (\<lambda>(k, v). (f k, g k, v)) (entries_h h (field_h h a key)))"
  using entries_ok [OF assms(1) field_ok [OF assms, of key]]
  by (auto simp: list_all_iff)

lemma members_all_ok:
  assumes "separate n0 h" and "n0 \<le> a"
  shows "list_all (\<lambda>entry. value_ok n0 (snd (snd entry)))
           (map (\<lambda>(i, v). (f i, g i, v)) (enumerate 0 (members_h h (field_h h a key))))"
  using members_ok [OF assms(1) field_ok [OF assms, of key]]
  by (auto simp: list_all_iff in_set_enumerate_eq)

lemma extends_fix_body:
  assumes "keeps n0 recur" and "separate n0 h" and "n0 \<le> a"
  shows "extends n0 h (fix_body recur h a)"
proof -
  define h1 where "h1 = add_items_h h a"
  define h2 where "h2 = foldl (visit recur a) h1
      (map (\<lambda>(key, v). (key, Some key, v)) (entries_h h1 (field_h h1 a ''properties'')))"
  define h3 where "h3 = foldl (visit recur a) h2 [(''items'', None, field_h h2 a ''items'')]"
  define h4 where "h4 = foldl (visit recur a) h3
      (map (\<lambda>(pattern, v). (''patternProperties['' @ pattern @ '']'', None, v))
         (entries_h h3 (field_h h3 a ''patternProperties'')))"
  define h5 where "h5 = foldl (visit recur a) h4
      (map (\<lambda>(i, v). (''oneOf['' @ dec i @ '']'', None, v))
         (enumerate 0 (members_h h4 (field_h h4 a ''oneOf''))))"
  define h6 where "h6 = foldl (visit recur a) h5
      (map (\<lambda>(i, v). (''anyOf['' @ dec i @ '']'', None, v))
         (enumerate 0 (members_h h5 (field_h h5 a ''anyOf''))))"
  define h7 where "h7 = foldl (visit recur a) h6
      (map (\<lambda>(i, v). (''allOf['' @ dec i @ '']'', None, v))
         (enumerate 0 (members_h h6 (field_h h6 a ''allOf''))))"
  have e1: "extends n0 h h1" unfolding h1_def using assms(2,3) by (rule extends_add_items)
  have s1: "separate n0 h1" using e1 by (rule extends_separate)
  have e2: "extends n0 h1 h2" unfolding h2_def
    using assms(1,3) s1 entries_all_ok [OF s1 assms(3)] by (rule extends_visit_all)
  have s2: "separate n0 h2" using e2 by (rule extends_separate)
  have e3: "extends n0 h2 h3" unfolding h3_def
    using assms(1,3) s2 field_ok [OF s2 assms(3)] by (intro extends_visit_all) simp_all
  have s3: "separate n0 h3" using e3 by (rule extends_separate)
  have e4: "extends n0 h3 h4" unfolding h4_def
    using assms(1,3) s3 entries_all_ok [OF s3 assms(3)] by (rule extends_visit_all)
  have s4: "separate n0 h4" using e4 by (rule extends_separate)
  have e5: "extends n0 h4 h5" unfolding h5_def
    using assms(1,3) s4 members_all_ok [OF s4 assms(3)] by (rule extends_visit_all)
  have s5: "separate n0 h5" using e5 by (rule extends_separate)
  have e6: "extends n0 h5 h6" unfolding h6_def
    using assms(1,3) s5 members_all_ok [OF s5 assms(3)] by (rule extends_visit_all)
  have s6: "separate n0 h6" using e6 by (rule extends_separate)
  have e7: "extends n0 h6 h7" unfolding h7_def
    using assms(1,3) s6 members_all_ok [OF s6 assms(3)] by (rule extends_visit_all)
  have "fix_body recur h a = h7"
    by (simp add: fix_body_def Let_def h1_def h2_def h3_def h4_def h5_def h6_def h7_def)
  then show ?thesis
    using e1 e2 e3 e4 e5 e6 e7 by (metis extends_trans)
qed

lemma keeps_fix: "keeps n0 (fixArrayProperties_h n)"
proof (induction n)
  case 0
  show ?case by (simp add: keeps_def extends_refl)
next
  case (Suc n)
  show ?case unfolding keeps_def
  proof (intro allI impI)
    fix h v
    assume s: "separate n0 h" and v: "value_ok n0 v"
    show "extends n0 h (fixArrayProperties_h (Suc n) h v)"
    proof (cases v)
      case (HRef a)
      then show ?thesis using s v extends_fix_body [OF Suc s, of a]
        by (simp add: extends_refl)
    qed (use s in \<open>simp_all add: extends_refl\<close>)
  qed
qed

text \<open>A copying function that keeps the caller's cells and returns a value of its own.\<close>

definition copies :: "nat \<Rightarrow> (heap \<Rightarrow> hval \<Rightarrow> (heap \<times> hval) option) \<Rightarrow> bool" where
  "copies n0 recur =
     (\<forall>h v h' v'. separate n0 h \<longrightarrow> recur h v = Some (h', v') \<longrightarrow>
        extends n0 h h' \<and> value_ok n0 v')"

lemma copy_elems_extends:
  assumes "copies n0 recur"
  shows "separate n0 h \<Longrightarrow> copy_elems recur h xs = Some (h', xs') \<Longrightarrow>
           extends n0 h h' \<and> list_all (value_ok n0) xs'"
proof (induction xs arbitrary: h h' xs')
  case Nil
  then show ?case by (simp add: extends_refl)
next
  case (Cons x xs)
  from Cons.prems(2) obtain h1 x1 h2 xs2 where
    1: "recur h x = Some (h1, x1)" and 2: "copy_elems recur h1 xs = Some (h2, xs2)"
    and 3: "h' = h2" "xs' = x1 # xs2"
    by (auto split: option.splits)
  have e1: "extends n0 h h1" "value_ok n0 x1"
    using assms Cons.prems(1) 1 by (auto simp: copies_def)
  have e2: "extends n0 h1 h2 \<and> list_all (value_ok n0) xs2"
    using Cons.IH [OF extends_separate [OF e1(1)] 2] .
  then show ?case using e1 3 extends_trans [of n0 h h1 h2] by simp
qed

lemma copy_props_extends:
  assumes "copies n0 recur"
  shows "separate n0 h \<Longrightarrow> copy_props recur h ps = Some (h', ps') \<Longrightarrow>
           extends n0 h h' \<and> list_all (\<lambda>(k, v). value_ok n0 v) ps'"
proof (induction ps arbitrary: h h' ps')
  case Nil
  then show ?case by (simp add: extends_refl)
next
  case (Cons kx ps)
  obtain k x where kx: "kx = (k, x)" by (cases kx)
  from Cons.prems(2) kx obtain h1 x1 h2 ps2 where
    1: "recur h x = Some (h1, x1)" and 2: "copy_props recur h1 ps = Some (h2, ps2)"
    and 3: "h' = h2" "ps' = (k, x1) # ps2"
    by (auto split: option.splits)
  have e1: "extends n0 h h1" "value_ok n0 x1"
    using assms Cons.prems(1) 1 by (auto simp: copies_def)
  have e2: "extends n0 h1 h2 \<and> list_all (\<lambda>(k, v). value_ok n0 v) ps2"
    using Cons.IH [OF extends_separate [OF e1(1)] 2] .
  then show ?case using e1 3 extends_trans [of n0 h h1 h2] by simp
qed

lemma copy_cell_extends:
  assumes "copies n0 recur" and "separate n0 h" and "copy_cell recur h a = Some (h', v')"
  shows "extends n0 h h' \<and> value_ok n0 v'"
proof -
  have a: "a < length h" using assms(3) by (cases "a < length h") (simp_all add: copy_cell_def)
  obtain arr es ps where c: "h ! a = Cell arr es ps" by (cases "h ! a")
  show ?thesis
  proof (cases arr)
    case True
    then obtain h1 es' where 1: "copy_elems recur h es = Some (h1, es')"
      and 2: "h' = h1 @ [Cell True es' []]" "v' = HRef (length h1)"
      using assms(3) a c by (auto simp: copy_cell_def split: option.splits)
    have e: "extends n0 h h1" "list_all (value_ok n0) es'"
      using copy_elems_extends [OF assms(1,2) 1] by simp_all
    have s: "separate n0 h1" using e(1) by (rule extends_separate)
    have "extends n0 h1 (h1 @ [Cell True es' []])" using s e(2) by (simp add: extends_alloc)
    moreover have "n0 \<le> length h1" using s by (simp add: separate_def)
    ultimately show ?thesis using e(1) 2 extends_trans [of n0 h h1 h'] by simp
  next
    case False
    then obtain h1 ps' where 1: "copy_props recur h ps = Some (h1, ps')"
      and 2: "h' = h1 @ [Cell False [] ps']" "v' = HRef (length h1)"
      using assms(3) a c by (auto simp: copy_cell_def split: option.splits)
    have e: "extends n0 h h1" "list_all (\<lambda>(k, v). value_ok n0 v) ps'"
      using copy_props_extends [OF assms(1,2) 1] by simp_all
    have s: "separate n0 h1" using e(1) by (rule extends_separate)
    have "extends n0 h1 (h1 @ [Cell False [] ps'])" using s e(2) by (simp add: extends_alloc)
    moreover have "n0 \<le> length h1" using s by (simp add: separate_def)
    ultimately show ?thesis using e(1) 2 extends_trans [of n0 h h1 h'] by simp
  qed
qed

lemma copies_copy: "copies n0 (copy n)"
proof (induction n)
  case 0
  show ?case by (auto simp: copies_def extends_refl split: hval.splits)
next
  case (Suc n)
  show ?case unfolding copies_def
  proof (intro allI impI)
    fix h v h' v'
    assume s: "separate n0 h" and c: "copy (Suc n) h v = Some (h', v')"
    show "extends n0 h h' \<and> value_ok n0 v'"
    proof (cases v)
      case (HRef a)
      then show ?thesis using copy_cell_extends [OF Suc s, of a h' v'] c by simp
    qed (use s c in \<open>auto simp: extends_refl\<close>)
  qed
qed

lemma separate_start: "separate (length h) h"
  by (simp add: separate_def)

subsection \<open>Claim about the argument of normalisation\<close>

text \<open>
  Claim C10.  For every store, every input schema in it and every bound: after schema
  normalisation every cell that existed before holds what it held before, so the schema
  given and everything reachable from it are unchanged; every cell written, with the
  repairs and the parent and name annotations of the recursive array fix, is a new cell,
  and no new cell refers to an old one (the copy is deep); when the copy fails, the
  argument is returned and the store is the same; and the value returned is either the
  argument or the address of a new cell.
\<close>

theorem original_schema_not_mutated:
  "take (length h) (fst (ensureValidToolSchema_h n h schema)) = h \<and>
   separate (length h) (fst (ensureValidToolSchema_h n h schema)) \<and>
   (copy n h schema = None \<longrightarrow> ensureValidToolSchema_h n h schema = (h, schema)) \<and>
   (snd (ensureValidToolSchema_h n h schema) = schema \<or>
    (\<exists>a. snd (ensureValidToolSchema_h n h schema) = HRef a \<and> length h \<le> a))"
proof -
  let ?n0 = "length h"
  have ext: "extends ?n0 h (fst (ensureValidToolSchema_h n h schema))"
  proof (cases "falsy_h schema")
    case True
    then show ?thesis by (simp add: ensureValidToolSchema_h_def extends_refl separate_start)
  next
    case False
    show ?thesis
    proof (cases "copy n h schema")
      case None
      then show ?thesis using False by (simp add: ensureValidToolSchema_h_def extends_refl separate_start)
    next
      case (Some r)
      obtain h1 v where r: "r = (h1, v)" by (cases r)
      have e1: "extends ?n0 h h1" and v: "value_ok ?n0 v"
        using copies_copy [of ?n0 n] Some r separate_start [of h] by (auto simp: copies_def)
      have s1: "separate ?n0 h1" using e1 by (rule extends_separate)
      have n1: "?n0 \<le> length h1" using s1 by (simp add: separate_def)
      show ?thesis
      proof (cases v)
        case (HRef a)
        then have a: "?n0 \<le> a" using v by simp
        define h2 where "h2 = (if missing_h h1 a ''required''
                             then set_h (h1 @ [Cell True [] []]) a ''required'' (HRef (length h1))
                             else h1)"
        define h3 where "h3 = (if missing_h h2 a ''properties''
                             then set_h (h2 @ [Cell False [] []]) a ''properties'' (HRef (length h2))
                             else h2)"
        have e2: "extends ?n0 h1 h2"
        proof (cases "missing_h h1 a ''required''")
          case True
          have 1: "extends ?n0 h1 (h1 @ [Cell True [] []])" using s1 by (simp add: extends_alloc)
          have "extends ?n0 (h1 @ [Cell True [] []])
              (set_h (h1 @ [Cell True [] []]) a ''required'' (HRef (length h1)))"
            using extends_separate [OF 1] a n1 by (simp add: extends_set)
          from extends_trans [OF 1 this] show ?thesis using True by (simp add: h2_def)
        next
          case False
          then show ?thesis using s1 by (simp add: h2_def extends_refl)
        qed
        have s2: "separate ?n0 h2" using e2 by (rule extends_separate)
        have n2: "?n0 \<le> length h2" using s2 by (simp add: separate_def)
        have e3: "extends ?n0 h2 h3"
        proof (cases "missing_h h2 a ''properties''")
          case True
          have 1: "extends ?n0 h2 (h2 @ [Cell False [] []])" using s2 by (simp add: extends_alloc)
          have "extends ?n0 (h2 @ [Cell False [] []])
              (set_h (h2 @ [Cell False [] []]) a ''properties'' (HRef (length h2)))"
            using extends_separate [OF 1] a n2 by (simp add: extends_set)
          from extends_trans [OF 1 this] show ?thesis using True by (simp add: h3_def)
        next
          case False
          then show ?thesis using s2 by (simp add: h3_def extends_refl)
        qed
        have s3: "separate ?n0 h3" using e3 by (rule extends_separate)
        have e4: "extends ?n0 h3 (fixArrayProperties_h (Suc n) h3 (HRef a))"
          using keeps_fix [of ?n0 "Suc n"] s3 a by (simp add: keeps_def del: fixArrayProperties_h.simps)
        have obj: "extends ?n0 h (fixArrayProperties_h (Suc n) h3 (HRef a))"
          using e1 e2 e3 e4 by (metis extends_trans)
        have arr: "extends ?n0 h (add_string_items h1 a)"
          using extends_trans [OF e1 extends_add_string_items [OF s1 a]] .
        show ?thesis
          using False Some r HRef obj [unfolded h3_def h2_def] arr e1
          by (simp add: ensureValidToolSchema_h_def Let_def del: fixArrayProperties_h.simps)
      qed (use False Some r e1 in \<open>simp_all add: ensureValidToolSchema_h_def\<close>)
    qed
  qed
  have 1: "take ?n0 (fst (ensureValidToolSchema_h n h schema)) = h" using ext by (simp add: extends_def)
  have 0: "separate ?n0 (fst (ensureValidToolSchema_h n h schema))" using ext by (rule extends_separate)
  have 2: "copy n h schema = None \<longrightarrow> ensureValidToolSchema_h n h schema = (h, schema)"
    by (simp add: ensureValidToolSchema_h_def)
  have 3: "snd (ensureValidToolSchema_h n h schema) = schema \<or>
      (\<exists>a. snd (ensureValidToolSchema_h n h schema) = HRef a \<and> length h \<le> a)"
  proof (cases "copy n h schema")
    case None
    then show ?thesis by (simp add: ensureValidToolSchema_h_def)
  next
    case (Some r)
    obtain h1 v where r: "r = (h1, v)" by (cases r)
    have v: "value_ok ?n0 v"
      using copies_copy [of ?n0 n] Some r separate_start [of h] by (auto simp: copies_def)
    show ?thesis
    proof (cases v)
      case (HRef a)
      then show ?thesis using Some r v by (simp add: ensureValidToolSchema_h_def Let_def del: fixArrayProperties_h.simps)
    qed (use Some r in \<open>simp_all add: ensureValidToolSchema_h_def\<close>)
  qed
  from 0 1 2 3 show ?thesis by blast
qed

text \<open>
  Two stores: the schema \<open>{type: 'object', properties: {tags: {type: 'array'}}}\<close> at
  address 0, and an object that contains itself.
\<close>

definition sample_heap :: heap where
  "sample_heap =
     [Cell False [] [(''type'', HStr ''object''), (''properties'', HRef 1)],
      Cell False [] [(''tags'', HRef 2)],
      Cell False [] [(''type'', HStr ''array'')]]"

definition cyclic_heap :: heap where
  "cyclic_heap = [Cell False [] [(''type'', HStr ''object''), (''self'', HRef 0)]]"

lemma sample_run:
  "ensureValidToolSchema_h 10 sample_heap (HRef 0) =
    ([Cell False [] [(''type'', HStr ''object''), (''properties'', HRef 1)],
      Cell False [] [(''tags'', HRef 2)],
      Cell False [] [(''type'', HStr ''array'')],
      Cell False [] [(''type'', HStr ''array''), (''parent'', HRef 7),
                     (''name'', HStr ''tags''), (''items'', HRef 8)],
      Cell False [] [(''tags'', HRef 3)],
      Cell False [] [(''type'', HStr ''object''), (''properties'', HRef 4), (''required'', HRef 6)],
      Cell True [] [],
      Cell False [] [(''object'', HRef 5), (''property'', HStr ''tags'')],
      Cell False [] [(''type'', HStr ''string''), (''parent'', HRef 9)],
      Cell False [] [(''object'', HRef 3), (''property'', HStr ''items'')]],
     HRef 5)"
  by code_simp

lemma copy_string: "copy n h (HStr s) = Some (h, HStr s)"
  by (cases n) simp_all

lemma copy_cyclic: "copy n cyclic_heap (HRef 0) = None"
  by (induction n) (simp_all add: copy_cell_def cyclic_heap_def copy_string)

text \<open>
  Claim C10 at these stores.  The first schema is copied to address 5 and the copy of
  \<open>tags\<close>, at address 3, receives its \<open>items\<close>, while the three cells of the argument are
  as before and \<open>tags\<close> itself, at address 2, still has no \<open>items\<close>.  The copy of the
  second one fails, and the argument is returned with the store unchanged.
\<close>

theorem original_schema_not_mutated_witness:
  "take 3 (fst (ensureValidToolSchema_h 10 sample_heap (HRef 0))) = sample_heap \<and>
   snd (ensureValidToolSchema_h 10 sample_heap (HRef 0)) = HRef 5 \<and>
   get_h (fst (ensureValidToolSchema_h 10 sample_heap (HRef 0))) 3 ''items'' = Some (HRef 8) \<and>
   get_h (fst (ensureValidToolSchema_h 10 sample_heap (HRef 0))) 2 ''items'' = None \<and>
   copy 10 cyclic_heap (HRef 0) = None \<and>
   ensureValidToolSchema_h 10 cyclic_heap (HRef 0) = (cyclic_heap, HRef 0)"
proof -
  have l: "length sample_heap = 3" by (simp add: sample_heap_def)
  have g: "get_h (fst (ensureValidToolSchema_h 10 sample_heap (HRef 0))) 3 ''items'' = Some (HRef 8)"
    "get_h (fst (ensureValidToolSchema_h 10 sample_heap (HRef 0))) 2 ''items'' = None"
    unfolding sample_run by (simp_all add: get_h_def)
  have s: "snd (ensureValidToolSchema_h 10 sample_heap (HRef 0)) = HRef 5"
    unfolding sample_run by simp
  show ?thesis
    using original_schema_not_mutated [of sample_heap 10 "HRef 0"]
      original_schema_not_mutated [of cyclic_heap 10 "HRef 0"] l g s copy_cyclic [of 10]
    by simp
qed

end
